theory Spec2Isabelle
  imports Main "HOL-Library.AList" "HOL-Library.Multiset"
begin

section \<open>The orchestrator of main.js and whatsappClient.js as a transition system\<close>

text \<open>
  The program runs on a single-threaded event loop. Every piece of synchronous code
  (an HTTP handler up to its first suspension, a timer callback, an event handler of the
  client library, the continuation of an awaited promise) runs to completion before the
  next one starts. The model has one \<open>event\<close> for each such piece and a function
  \<open>step\<close> that runs it on the whole program state. Which event comes next, and what the
  outside world answers (whether a call of the client library resolves or rejects, which
  operation id \<open>Date.now()\<close> and \<open>Math.random()\<close> produce) is chosen by the environment.

  Objects that the source shares by reference live in two heaps, addressed by their
  index: \<open>objs\<close> holds the \<open>WhatsAppClientManager\<close> objects and \<open>ops\<close> the operation
  records together with the closure of the \<open>executeBanStrategy\<close> call that owns each.
  The two \<open>Map\<close>s of main.js are association lists from key to address, in insertion
  order as a JavaScript \<open>Map\<close> keeps it.

  Left out: the API-key middleware (events are the requests that passed it), console
  output other than the warning for an unknown ban type, the \<open>startTime\<close> and
  \<open>endTime\<close> stamps, and the text of the messages, report types and group subjects, which
  the source draws at random.
\<close>

subsection \<open>config.js\<close>

record config =
  WHATSAPP_WORKERS_COUNT :: int
  MASS_REPORT_COUNT :: nat
  MESSAGE_FLOOD_COUNT :: nat
  GROUP_INVITE_COUNT :: nat

text \<open>The values of config.js, with the worker count the environment variable gives.\<close>

definition config_js :: "int \<Rightarrow> config" where
  "config_js workers =
     \<lparr>WHATSAPP_WORKERS_COUNT = workers, MASS_REPORT_COUNT = 50,
      MESSAGE_FLOOD_COUNT = 100, GROUP_INVITE_COUNT = 10\<rparr>"

subsection \<open>Data\<close>

datatype status = Idle | QrReady | Authenticating | Ready | Disconnected | Error | Destroyed

text \<open>A \<open>WhatsAppClientManager\<close> object: its fields that main.js reads or writes.\<close>

record manager =
  clientId :: string
  status :: status
  qrCode :: "string option"

datatype op_status = Pending | InProgress | Completed

text \<open>An entry of \<open>clientsUsed\<close>: the client's id, and the error message when it failed.\<close>

datatype clientUsed = UsedSuccess string | UsedFailed string string

record operation =
  opId :: string
  targetNumber :: string
  banType :: string
  opStatus :: op_status
  clientsUsed :: "clientUsed list"

text \<open>
  One per-client task of \<open>executeBanStrategy\<close> (the async arrow function pushed on
  \<open>clientPromises\<close>): the manager object it closes over, where it is suspended, and how
  many times it has called a method of its manager.
\<close>

datatype phase =
    Delay
  | Calling nat
  | Pausing nat
  | Succeeded
  | Failed

record task =
  worker :: nat
  phase :: phase
  invoked :: nat

text \<open>
  A cell of the operation heap: the operation object and the closure of the
  \<open>executeBanStrategy\<close> call that owns it (\<open>clients.length\<close> and the tasks).
\<close>

record execution =
  operation :: operation
  clients_length :: nat
  tasks :: "task list"

text \<open>
  The calls of the wrapped client (the \<open>Client\<close> of whatsapp-web.js), the notifications
  to the operator by kind, the pending timers of the registry and of the reaper, and what
  waits for a pending \<open>destroy\<close>: nothing, or the rest of the remove handler.
\<close>

datatype conn_call = CInitialize | CDestroy | CSendMessage string | CCreateGroup string

datatype notification =
    NReady string
  | NAuthFailed string string
  | NDisconnected string "string option"
  | NRemoved string
  | NInitiating string string nat
  | NSimulatedProbe string string
  | NClientFailed string string string string
  | NCompleted string string string

datatype timer = Reinit string | Purge string

datatype cont = NoCont | RemoveCont string

text \<open>
  The program state: the two heaps and the two maps, the QR cache, the pending timers and
  \<open>destroy\<close> calls, the client ids whose add request still polls the cache, and three
  logs (calls of wrapped clients, notifications, warnings for unknown ban types).
\<close>

record state =
  objs :: "manager list"
  whatsappClients :: "(string \<times> nat) list"
  ops :: "execution list"
  activeOperations :: "(string \<times> nat) list"
  myCache :: "(string \<times> string) list"
  timers :: "timer list"
  destroys :: "(nat \<times> cont) list"
  pollers :: "string list"
  connLog :: "(nat \<times> conn_call) list"
  notifications :: "notification list"
  warnings :: "string list"

definition empty_state :: state where
  "empty_state =
     \<lparr>objs = [], whatsappClients = [], ops = [], activeOperations = [], myCache = [],
      timers = [], destroys = [], pollers = [], connLog = [], notifications = [],
      warnings = []\<rparr>"

subsection \<open>Template strings\<close>

definition digit :: "nat \<Rightarrow> char" where
  "digit d = char_of (48 + d)"

fun decimal :: "nat \<Rightarrow> string" where
  "decimal n = (if n < 10 then [digit n] else decimal (n div 10) @ [digit (n mod 10)])"

declare decimal.simps [simp del]

definition client_name :: "nat \<Rightarrow> string" where
  "client_name n = ''client_'' @ decimal n"

definition status_text :: "status \<Rightarrow> string" where
  "status_text st =
     (case st of Idle \<Rightarrow> ''idle'' | QrReady \<Rightarrow> ''qr_ready''
      | Authenticating \<Rightarrow> ''authenticating'' | Ready \<Rightarrow> ''ready''
      | Disconnected \<Rightarrow> ''disconnected'' | Error \<Rightarrow> ''error''
      | Destroyed \<Rightarrow> ''destroyed'')"

text \<open>JavaScript truthiness of an optional string: \<open>null\<close> and \<open>''\<close> are falsy.\<close>

definition truthy :: "string option \<Rightarrow> bool" where
  "truthy v = (case v of None \<Rightarrow> False | Some x \<Rightarrow> x \<noteq> [])"

subsection \<open>whatsappClient.js: the methods of a manager\<close>

datatype error = NotReadyError string string status | ClientError string

definition message :: "error \<Rightarrow> string" where
  "message e =
     (case e of
        NotReadyError cid what st \<Rightarrow>
          ''Client '' @ cid @ '' is not ready to '' @ what @ ''. Status: '' @ status_text st
      | ClientError m \<Rightarrow> m)"

text \<open>
  Each method either throws before anything else happens (\<open>Inl\<close>) or goes on (\<open>Inr\<close>).
  \<open>sendMessage\<close> and \<open>addTargetToGroup\<close> go on by calling the wrapped client, and the
  value is that call; \<open>sendReport\<close> calls nothing and returns \<open>true\<close>.
\<close>

definition sendMessage :: "manager \<Rightarrow> string \<Rightarrow> error + conn_call" where
  "sendMessage m target =
     (if status m \<noteq> Ready then Inl (NotReadyError (clientId m) ''send messages'' (status m))
      else Inr (CSendMessage target))"

definition sendReport :: "manager \<Rightarrow> string \<Rightarrow> error + bool" where
  "sendReport m target =
     (if status m \<noteq> Ready then Inl (NotReadyError (clientId m) ''report'' (status m))
      else Inr True)"

definition addTargetToGroup :: "manager \<Rightarrow> string \<Rightarrow> error + conn_call" where
  "addTargetToGroup m target =
     (if status m \<noteq> Ready
      then Inl (NotReadyError (clientId m) ''create/add to group'' (status m))
      else Inr (CCreateGroup target))"

text \<open>
  How the awaited call of the wrapped client settles. It rejects with an \<open>Error\<close> whose
  message is given, or it resolves; \<open>createGroup\<close> resolves either with a value whose
  \<open>id._serialized\<close> can be read, or with one for which reading it throws a \<open>TypeError\<close>,
  whose message is given. For \<open>sendMessage\<close> of the wrapped client the two resolved cases
  are the same, since its value is not looked at.
\<close>

datatype settled = Resolved | ResolvedWithoutId string | Rejected string

text \<open>
  The rest of each method after its \<open>await\<close>: \<open>None\<close> when it returns, the error it
  throws otherwise. \<open>sendMessage\<close> lets a rejection through as it is. \<open>addTargetToGroup\<close>
  reads \<open>group.id._serialized\<close> inside its \<open>try\<close> block, and its \<open>catch\<close> block wraps
  whatever was thrown there.
\<close>

definition sendMessage_rejected :: "string \<Rightarrow> error" where
  "sendMessage_rejected msg = ClientError msg"

definition addTargetToGroup_rejected :: "string \<Rightarrow> error" where
  "addTargetToGroup_rejected msg = ClientError (''Failed to add target to group: '' @ msg)"

definition sendMessage_settled :: "settled \<Rightarrow> error option" where
  "sendMessage_settled r =
     (case r of
        Resolved \<Rightarrow> None
      | ResolvedWithoutId _ \<Rightarrow> None
      | Rejected msg \<Rightarrow> Some (sendMessage_rejected msg))"

definition addTargetToGroup_settled :: "settled \<Rightarrow> error option" where
  "addTargetToGroup_settled r =
     (case r of
        Resolved \<Rightarrow> None
      | ResolvedWithoutId msg \<Rightarrow> Some (addTargetToGroup_rejected msg)
      | Rejected msg \<Rightarrow> Some (addTargetToGroup_rejected msg))"

subsection \<open>main.js: the registry of clients\<close>

definition sendTelegramMessageToAdmin :: "notification \<Rightarrow> state \<Rightarrow> state" where
  "sendTelegramMessageToAdmin n s = s\<lparr>notifications := notifications s @ [n]\<rparr>"

definition set_manager :: "nat \<Rightarrow> (manager \<Rightarrow> manager) \<Rightarrow> state \<Rightarrow> state" where
  "set_manager a f s = s\<lparr>objs := (objs s)[a := f (objs s ! a)]\<rparr>"

text \<open>
  \<open>updateClientStatus\<close> writes to the manager that the map holds under \<open>clientId\<close> now,
  which need not be the object whose callback runs. The cache key \<open>qr_<clientId>\<close> is
  modelled by the client id.
\<close>

definition updateClientStatus :: "string \<Rightarrow> status \<Rightarrow> string option \<Rightarrow> state \<Rightarrow> state" where
  "updateClientStatus cid st qr s =
     (case map_of (whatsappClients s) cid of
        None \<Rightarrow> s
      | Some a \<Rightarrow>
          let s1 = set_manager a (\<lambda>m. m\<lparr>status := st\<rparr>) s;
              s2 = (if truthy qr
                    then (set_manager a (\<lambda>m. m\<lparr>qrCode := qr\<rparr>) s1)
                           \<lparr>myCache := AList.update cid (the qr) (myCache s1)\<rparr>
                    else s1\<lparr>myCache := AList.delete cid (myCache s1)\<rparr>)
          in if st = Destroyed \<or> st = Error \<or> st = Disconnected
             then s2\<lparr>timers := timers s2 @ [Reinit cid]\<rparr>
             else s2)"

text \<open>
  \<open>WhatsAppClientManager.destroy\<close> up to its \<open>await\<close>: the wrapped client's
  \<open>destroy\<close> is called and the rest waits for it, together with what the caller does
  after its own \<open>await\<close> (\<open>cont\<close>). \<open>this.client\<close> is set by the constructor and never
  cleared, so the guard \<open>if (this.client)\<close> always holds.
\<close>

definition destroy :: "nat \<Rightarrow> cont \<Rightarrow> state \<Rightarrow> state" where
  "destroy a k s =
     s\<lparr>destroys := destroys s @ [(a, k)], connLog := connLog s @ [(a, CDestroy)]\<rparr>"

text \<open>The constructor: a fresh object in state \<open>idle\<close> whose wrapped client is initialised.\<close>

definition new_manager :: "string \<Rightarrow> state \<Rightarrow> state" where
  "new_manager cid s =
     s\<lparr>objs := objs s @ [\<lparr>clientId = cid, status = Idle, qrCode = None\<rparr>],
       connLog := connLog s @ [(length (objs s), CInitialize)]\<rparr>"

definition initializeWhatsAppClient :: "string \<Rightarrow> state \<Rightarrow> state" where
  "initializeWhatsAppClient cid s =
     (let s1 = (case map_of (whatsappClients s) cid of
                  None \<Rightarrow> s
                | Some a \<Rightarrow>
                    (destroy a NoCont s)
                      \<lparr>whatsappClients := AList.delete cid (whatsappClients s)\<rparr>);
          s2 = new_manager cid s1
      in s2\<lparr>whatsappClients := AList.update cid (length (objs s1)) (whatsappClients s2)\<rparr>)"

text \<open>
  The start-up loop \<open>for (let i = 0; i < config.WHATSAPP_WORKERS_COUNT; i++)\<close>. A count
  that \<open>parseInt\<close> could not read is \<open>NaN\<close>, for which the loop and the cap below behave
  as for 0.
\<close>

definition startup :: "config \<Rightarrow> state" where
  "startup cfg =
     fold (\<lambda>i. initializeWhatsAppClient (client_name (i + 1)))
       [0..<nat (WHATSAPP_WORKERS_COUNT cfg)] empty_state"

text \<open>What an endpoint answers: the JSON body of a 200, or the status of an error.\<close>

datatype response =
    StatusJson nat nat "(string \<times> status) list" nat "operation list"
  | AddJson string string
  | RemovedJson string
  | NotFound404 string
  | BadRequest400
  | Unavailable503
  | InitiatedJson string

definition remove_nth :: "nat \<Rightarrow> 'a list \<Rightarrow> 'a list" where
  "remove_nth k xs = take k xs @ drop (Suc k) xs"

text \<open>
  The continuation of \<open>destroy\<close> once the \<open>k\<close>-th pending \<open>destroy\<close> of a wrapped
  client has settled, resolved (\<open>ok\<close>) or rejected, followed by the rest of the remove
  handler when that is what awaits it.
\<close>

definition destroySettled :: "nat \<Rightarrow> bool \<Rightarrow> state \<Rightarrow> response option \<times> state" where
  "destroySettled k ok s =
     (if k < length (destroys s) then
        let a = fst (destroys s ! k);
            s1 = s\<lparr>destroys := remove_nth k (destroys s)\<rparr>;
            s2 = (if ok
                  then updateClientStatus (clientId (objs s1 ! a)) Destroyed None
                         (set_manager a (\<lambda>m. m\<lparr>status := Destroyed\<rparr>) s1)
                  else s1)
        in (case snd (destroys s ! k) of
              NoCont \<Rightarrow> (None, s2)
            | RemoveCont cid \<Rightarrow>
                (Some (RemovedJson cid),
                 sendTelegramMessageToAdmin (NRemoved cid)
                   (s2\<lparr>whatsappClients := AList.delete cid (whatsappClients s2)\<rparr>)))
      else (None, s))"

subsection \<open>main.js: the endpoints of the registry\<close>

definition getStatus :: "state \<Rightarrow> response" where
  "getStatus s =
     (let clients = map (\<lambda>a. objs s ! a) (map snd (whatsappClients s)) in
      StatusJson (length (whatsappClients s))
        (length (filter (\<lambda>c. status c = Ready) clients))
        (map (\<lambda>c. (clientId c, status c)) clients)
        0
        (map (\<lambda>a. operation (ops s ! a)) (map snd (activeOperations s))))"

definition newClientId :: "state \<Rightarrow> string" where
  "newClientId s = client_name (length (whatsappClients s) + 1)"

text \<open>
  \<open>POST /whatsapp/add\<close> answers from its polling interval, once the cache holds a QR code
  for the new id; until then the id waits in \<open>pollers\<close>.
\<close>

definition postAdd :: "state \<Rightarrow> response option \<times> state" where
  "postAdd s =
     (None, (initializeWhatsAppClient (newClientId s) s)
              \<lparr>pollers := pollers s @ [newClientId s]\<rparr>)"

definition pollTick :: "nat \<Rightarrow> state \<Rightarrow> response option \<times> state" where
  "pollTick k s =
     (if k < length (pollers s) then
        (case map_of (myCache s) (pollers s ! k) of
           None \<Rightarrow> (None, s)
         | Some qr \<Rightarrow>
             if qr = [] then (None, s)
             else (Some (AddJson (pollers s ! k) qr),
                   s\<lparr>pollers := remove_nth k (pollers s)\<rparr>))
      else (None, s))"

definition postRemove :: "string \<Rightarrow> state \<Rightarrow> response option \<times> state" where
  "postRemove cid s =
     (case map_of (whatsappClients s) cid of
        Some a \<Rightarrow> (None, destroy a (RemoveCont cid) s)
      | None \<Rightarrow> (Some (NotFound404 cid), s))"

subsection \<open>whatsappClient.js: the handlers of the wrapped client's events\<close>

datatype client_event =
    Qr string
  | ReadyEv
  | Authenticated
  | AuthFailure string
  | DisconnectedEv "string option"
  | InitError string

definition clientEvent :: "nat \<Rightarrow> client_event \<Rightarrow> state \<Rightarrow> state" where
  "clientEvent a ev s =
     (if a < length (objs s) then
        let cid = clientId (objs s ! a) in
        (case ev of
           Qr qr \<Rightarrow>
             updateClientStatus cid QrReady (Some qr)
               (set_manager a (\<lambda>m. m\<lparr>qrCode := Some qr, status := QrReady\<rparr>) s)
         | ReadyEv \<Rightarrow>
             sendTelegramMessageToAdmin (NReady cid)
               (updateClientStatus cid Ready None
                  (set_manager a (\<lambda>m. m\<lparr>status := Ready, qrCode := None\<rparr>) s))
         | Authenticated \<Rightarrow>
             updateClientStatus cid Authenticating None
               (set_manager a (\<lambda>m. m\<lparr>status := Authenticating\<rparr>) s)
         | AuthFailure msg \<Rightarrow>
             destroy a NoCont
               (sendTelegramMessageToAdmin (NAuthFailed cid msg)
                  (updateClientStatus cid Error (Some (''Auth failed: '' @ msg))
                     (set_manager a (\<lambda>m. m\<lparr>status := Error\<rparr>) s)))
         | DisconnectedEv reason \<Rightarrow>
             destroy a NoCont
               (sendTelegramMessageToAdmin (NDisconnected cid reason)
                  (updateClientStatus cid Disconnected reason
                     (set_manager a (\<lambda>m. m\<lparr>status := Disconnected\<rparr>) s)))
         | InitError msg \<Rightarrow>
             updateClientStatus cid Error (Some (''Init error: '' @ msg))
               (set_manager a (\<lambda>m. m\<lparr>status := Error\<rparr>) s))
      else s)"

subsection \<open>main.js: executeBanStrategy\<close>

text \<open>
  Writes to the operation object at address \<open>a\<close>, and to task \<open>w\<close> of the call that
  owns it. A task is settled when its promise is: after the end of the \<open>try\<close> block or
  of the \<open>catch\<close> block.
\<close>

definition set_operation :: "nat \<Rightarrow> (operation \<Rightarrow> operation) \<Rightarrow> state \<Rightarrow> state" where
  "set_operation a f s = s\<lparr>ops := (ops s)[a := (ops s ! a)\<lparr>operation := f (operation (ops s ! a))\<rparr>]\<rparr>"

definition set_task :: "nat \<Rightarrow> nat \<Rightarrow> (task \<Rightarrow> task) \<Rightarrow> state \<Rightarrow> state" where
  "set_task a w f s =
     s\<lparr>ops := (ops s)[a := (ops s ! a)\<lparr>tasks := (tasks (ops s ! a))[w := f (tasks (ops s ! a) ! w)]\<rparr>]\<rparr>"

definition finished :: "phase \<Rightarrow> bool" where
  "finished p = (p = Succeeded \<or> p = Failed)"

text \<open>The code after \<open>await Promise.allSettled(clientPromises)\<close>.\<close>

definition complete :: "nat \<Rightarrow> state \<Rightarrow> state" where
  "complete a s =
     (let op = operation (ops s ! a);
          s1 = sendTelegramMessageToAdmin (NCompleted (opId op) (targetNumber op) (banType op))
                 (set_operation a (\<lambda>r. r\<lparr>opStatus := Completed\<rparr>) s)
      in s1\<lparr>timers := timers s1 @ [Purge (opId op)]\<rparr>)"

text \<open>
  \<open>Promise.allSettled\<close> resolves when the last task has settled, and its continuation
  runs as a microtask, before any other event: the model runs it in the step that
  settles the last task (or in the submitting step when there is no task).
\<close>

definition allSettled :: "nat \<Rightarrow> state \<Rightarrow> state" where
  "allSettled a s =
     (if list_all (\<lambda>t. finished (phase t)) (tasks (ops s ! a)) then complete a s else s)"

text \<open>\<open>clientManager.clientId\<close>, for the manager that task \<open>w\<close> closes over.\<close>

definition worker_id :: "nat \<Rightarrow> nat \<Rightarrow> state \<Rightarrow> string" where
  "worker_id a w s = clientId (objs s ! worker (tasks (ops s ! a) ! w))"

text \<open>The end of the \<open>try\<close> block, and the \<open>catch\<close> block.\<close>

definition succeed :: "nat \<Rightarrow> nat \<Rightarrow> state \<Rightarrow> state" where
  "succeed a w s =
     allSettled a
       (set_task a w (\<lambda>t. t\<lparr>phase := Succeeded\<rparr>)
          (set_operation a
             (\<lambda>r. r\<lparr>clientsUsed := clientsUsed r @ [UsedSuccess (worker_id a w s)]\<rparr>) s))"

definition fail :: "nat \<Rightarrow> nat \<Rightarrow> error \<Rightarrow> state \<Rightarrow> state" where
  "fail a w e s =
     (let op = operation (ops s ! a) in
      allSettled a
        (set_task a w (\<lambda>t. t\<lparr>phase := Failed\<rparr>)
           (sendTelegramMessageToAdmin
              (NClientFailed (worker_id a w s) (targetNumber op) (banType op) (message e))
              (set_operation a
                 (\<lambda>r. r\<lparr>clientsUsed := clientsUsed r @ [UsedFailed (worker_id a w s) (message e)]\<rparr>)
                 s))))"

text \<open>
  Book-keeping that the source does not have: \<open>called\<close> counts a call of a method of
  the manager, and \<open>forward\<close> logs the call of the wrapped client that the method makes.
\<close>

definition called :: "nat \<Rightarrow> nat \<Rightarrow> state \<Rightarrow> state" where
  "called a w s = set_task a w (\<lambda>t. t\<lparr>invoked := invoked t + 1\<rparr>) s"

definition forward :: "nat \<Rightarrow> nat \<Rightarrow> conn_call \<Rightarrow> state \<Rightarrow> state" where
  "forward a w c s = s\<lparr>connLog := connLog s @ [(worker (tasks (ops s ! a) ! w), c)]\<rparr>"

text \<open>
  The head of the three \<open>for\<close> loops, with loop counter \<open>i\<close>. The test
  \<open>i < config.COUNT / clients.length\<close> divides JavaScript numbers, so the quotient is not
  rounded: for whole numbers it is \<open>i * clients.length < COUNT\<close>. One pass calls the
  manager; when the manager throws, the \<open>catch\<close> block runs; when \<open>sendReport\<close> returns,
  the task sleeps between reports; otherwise it waits for the wrapped client.
\<close>

definition loop_from :: "config \<Rightarrow> nat \<Rightarrow> nat \<Rightarrow> nat \<Rightarrow> state \<Rightarrow> state" where
  "loop_from cfg a w i s =
     (let ex = ops s ! a;
          n = clients_length ex;
          bt = banType (operation ex);
          target = targetNumber (operation ex);
          m = objs s ! worker (tasks ex ! w)
      in
      if bt = ''REPORT_FLOOD'' then
        (if i * n < MASS_REPORT_COUNT cfg then
           (case sendReport m target of
              Inl e \<Rightarrow> fail a w e (called a w s)
            | Inr _ \<Rightarrow> set_task a w (\<lambda>t. t\<lparr>phase := Pausing i\<rparr>) (called a w s))
         else succeed a w s)
      else if bt = ''MESSAGE_DELUGE'' then
        (if i * n < MESSAGE_FLOOD_COUNT cfg then
           (case sendMessage m target of
              Inl e \<Rightarrow> fail a w e (called a w s)
            | Inr c \<Rightarrow> set_task a w (\<lambda>t. t\<lparr>phase := Calling i\<rparr>) (forward a w c (called a w s)))
         else succeed a w s)
      else if bt = ''GROUP_POISON'' then
        (if i * n < GROUP_INVITE_COUNT cfg then
           (case addTargetToGroup m target of
              Inl e \<Rightarrow> fail a w e (called a w s)
            | Inr c \<Rightarrow> set_task a w (\<lambda>t. t\<lparr>phase := Calling i\<rparr>) (forward a w c (called a w s)))
         else succeed a w s)
      else s)"

text \<open>The \<open>switch (banType)\<close>, entered when the first random delay is over.\<close>

definition run_switch :: "config \<Rightarrow> nat \<Rightarrow> nat \<Rightarrow> state \<Rightarrow> state" where
  "run_switch cfg a w s =
     (let op = operation (ops s ! a); bt = banType op in
      if bt = ''REPORT_FLOOD'' \<or> bt = ''MESSAGE_DELUGE'' \<or> bt = ''GROUP_POISON''
      then loop_from cfg a w 0 s
      else if bt = ''2FA_PROBE''
      then succeed a w
             (sendTelegramMessageToAdmin (NSimulatedProbe (worker_id a w s) (targetNumber op)) s)
      else succeed a w (s\<lparr>warnings := warnings s @ [bt]\<rparr>))"

text \<open>A timer of task \<open>w\<close> of operation \<open>a\<close> fires: the first delay, or a pause in a loop.\<close>

definition taskTimer :: "config \<Rightarrow> nat \<Rightarrow> nat \<Rightarrow> state \<Rightarrow> state" where
  "taskTimer cfg a w s =
     (if a < length (ops s) \<and> w < length (tasks (ops s ! a)) then
        (case phase (tasks (ops s ! a) ! w) of
           Delay \<Rightarrow> run_switch cfg a w s
         | Pausing i \<Rightarrow> loop_from cfg a w (i + 1) s
         | _ \<Rightarrow> s)
      else s)"

text \<open>
  The call of the wrapped client that task \<open>w\<close> waits for settles, and the method that
  made it goes on: \<open>addTargetToGroup\<close> in the loop of \<open>GROUP_POISON\<close>, \<open>sendMessage\<close> in
  the other loop that waits for a call. When the method returns, the task sleeps until the
  next pass; when it throws, the \<open>catch\<close> block of the task runs. A rejection is taken
  to be an \<open>Error\<close> object, as the client library throws them, so that the \<open>catch\<close>
  blocks can read its message.
\<close>

definition settled_error :: "string \<Rightarrow> settled \<Rightarrow> error option" where
  "settled_error bt r =
     (if bt = ''GROUP_POISON'' then addTargetToGroup_settled r else sendMessage_settled r)"

definition connSettled :: "nat \<Rightarrow> nat \<Rightarrow> settled \<Rightarrow> state \<Rightarrow> state" where
  "connSettled a w r s =
     (if a < length (ops s) \<and> w < length (tasks (ops s ! a)) then
        (case phase (tasks (ops s ! a) ! w) of
           Calling i \<Rightarrow>
             (case settled_error (banType (operation (ops s ! a))) r of
                None \<Rightarrow> set_task a w (\<lambda>t. t\<lparr>phase := Pausing i\<rparr>) s
              | Some e \<Rightarrow> fail a w e s)
         | _ \<Rightarrow> s)
      else s)"

text \<open>
  The loop that starts the tasks: it stops at \<open>config.WHATSAPP_WORKERS_COUNT || 1\<close>
  clients. Each task runs up to its first \<open>await\<close>, the random delay. The tasks read
  \<open>targetNumber\<close> and \<open>banType\<close> from the operation record, whose fields of these names
  are the values that \<open>executeBanStrategy\<close> is called with and are never written again.
\<close>

definition worker_cap :: "config \<Rightarrow> int" where
  "worker_cap cfg = (if WHATSAPP_WORKERS_COUNT cfg = 0 then 1 else WHATSAPP_WORKERS_COUNT cfg)"

fun spawn :: "int \<Rightarrow> int \<Rightarrow> nat list \<Rightarrow> task list" where
  "spawn cap usedClientCount [] = []"
| "spawn cap usedClientCount (c # clients) =
     (if usedClientCount \<ge> cap then []
      else \<lparr>worker = c, phase = Delay, invoked = 0\<rparr> # spawn cap (usedClientCount + 1) clients)"

definition executeBanStrategy ::
  "config \<Rightarrow> string \<Rightarrow> string \<Rightarrow> string \<Rightarrow> nat list \<Rightarrow> state \<Rightarrow> state" where
  "executeBanStrategy cfg operationId target bt clients s =
     (case map_of (activeOperations s) operationId of
        None \<Rightarrow> s
      | Some a \<Rightarrow>
          let s1 = set_operation a (\<lambda>r. r\<lparr>opStatus := InProgress\<rparr>) s;
              s2 = sendTelegramMessageToAdmin (NInitiating bt target (length clients)) s1;
              s3 = s2\<lparr>ops := (ops s2)[a := (ops s2 ! a)
                        \<lparr>clients_length := length clients,
                         tasks := spawn (worker_cap cfg) 0 clients\<rparr>]\<rparr>
          in allSettled a s3)"

subsection \<open>main.js: POST /ban\<close>

definition availableClients :: "state \<Rightarrow> nat list" where
  "availableClients s = filter (\<lambda>a. status (objs s ! a) = Ready) (map snd (whatsappClients s))"

text \<open>The new record, as the handler stores it before it answers.\<close>

definition createOperation :: "string \<Rightarrow> string \<Rightarrow> string \<Rightarrow> state \<Rightarrow> state" where
  "createOperation operationId target bt s =
     s\<lparr>ops := ops s @
              [\<lparr>operation = \<lparr>opId = operationId, targetNumber = target, banType = bt,
                              opStatus = Pending, clientsUsed = []\<rparr>,
                clients_length = 0, tasks = []\<rparr>],
       activeOperations := AList.update operationId (length (ops s)) (activeOperations s)\<rparr>"

text \<open>
  \<open>operationId\<close> stands for the id that the handler builds from the clock and a random
  number. A missing or empty field of the request body is the empty string.
\<close>

definition postBan :: "config \<Rightarrow> string \<Rightarrow> string \<Rightarrow> string \<Rightarrow> state \<Rightarrow> response \<times> state" where
  "postBan cfg target bt operationId s =
     (if target = [] \<or> bt = [] then (BadRequest400, s)
      else if availableClients s = [] then (Unavailable503, s)
      else (InitiatedJson operationId,
            executeBanStrategy cfg operationId target bt (availableClients s)
              (createOperation operationId target bt s)))"

subsection \<open>The event loop\<close>

definition timerFired :: "nat \<Rightarrow> state \<Rightarrow> state" where
  "timerFired k s =
     (if k < length (timers s) then
        (case timers s ! k of
           Reinit cid \<Rightarrow> initializeWhatsAppClient cid (s\<lparr>timers := remove_nth k (timers s)\<rparr>)
         | Purge operationId \<Rightarrow>
             s\<lparr>timers := remove_nth k (timers s),
               activeOperations := AList.delete operationId (activeOperations s)\<rparr>)
      else s)"

datatype event =
    GetStatus
  | PostAdd
  | PostRemove string
  | PostBan string string string
  | ClientEvent nat client_event
  | DestroySettled nat bool
  | TimerFired nat
  | PollTick nat
  | CacheExpired string
  | TaskTimer nat nat
  | ConnSettled nat nat settled

definition step :: "config \<Rightarrow> event \<Rightarrow> state \<Rightarrow> response option \<times> state" where
  "step cfg e s =
     (case e of
        GetStatus \<Rightarrow> (Some (getStatus s), s)
      | PostAdd \<Rightarrow> postAdd s
      | PostRemove cid \<Rightarrow> postRemove cid s
      | PostBan target bt operationId \<Rightarrow>
          (Some (fst (postBan cfg target bt operationId s)),
           snd (postBan cfg target bt operationId s))
      | ClientEvent a ev \<Rightarrow> (None, clientEvent a ev s)
      | DestroySettled k ok \<Rightarrow> destroySettled k ok s
      | TimerFired k \<Rightarrow> (None, timerFired k s)
      | PollTick k \<Rightarrow> pollTick k s
      | CacheExpired cid \<Rightarrow> (None, s\<lparr>myCache := AList.delete cid (myCache s)\<rparr>)
      | TaskTimer a w \<Rightarrow> (None, taskTimer cfg a w s)
      | ConnSettled a w r \<Rightarrow> (None, connSettled a w r s))"

fun run :: "config \<Rightarrow> event list \<Rightarrow> state \<Rightarrow> state" where
  "run cfg [] s = s"
| "run cfg (e # es) s = run cfg es (snd (step cfg e s))"

section \<open>Invariants of the operation heap\<close>

text \<open>
  The definitions of this section are not part of the program: they state what holds of
  every cell of the operation heap in every state that the program reaches, and how a
  cell may change in a step.
\<close>

text \<open>The ban types whose branch of the switch is a loop, and the count each loop divides.\<close>

definition looped :: "string \<Rightarrow> bool" where
  "looped bt = (bt = ''REPORT_FLOOD'' \<or> bt = ''MESSAGE_DELUGE'' \<or> bt = ''GROUP_POISON'')"

definition total :: "config \<Rightarrow> string \<Rightarrow> nat" where
  "total cfg bt =
     (if bt = ''REPORT_FLOOD'' then MASS_REPORT_COUNT cfg
      else if bt = ''MESSAGE_DELUGE'' then MESSAGE_FLOOD_COUNT cfg
      else if bt = ''GROUP_POISON'' then GROUP_INVITE_COUNT cfg
      else 0)"

text \<open>Whether an entry of \<open>clientsUsed\<close> has \<open>status: 'failed'\<close>.\<close>

definition is_failed :: "clientUsed \<Rightarrow> bool" where
  "is_failed u = (case u of UsedSuccess _ \<Rightarrow> False | UsedFailed _ _ \<Rightarrow> True)"

text \<open>
  What the call counter of a task says about where the task is, for a loop that divides
  the count \<open>c\<close> by \<open>n\<close>: in pass \<open>i\<close> the task has made \<open>i + 1\<close> calls and the loop
  test held for \<open>i\<close>; after a success the test has failed for the number of calls made
  and held for the one before; only a task of a looping ban type fails, in a pass.
\<close>

definition task_ok :: "nat \<Rightarrow> nat \<Rightarrow> bool \<Rightarrow> task \<Rightarrow> bool" where
  "task_ok c n lp t =
     (case phase t of
        Delay \<Rightarrow> invoked t = 0
      | Calling i \<Rightarrow> invoked t = i + 1 \<and> i * n < c
      | Pausing i \<Rightarrow> invoked t = i + 1 \<and> i * n < c
      | Succeeded \<Rightarrow> c \<le> invoked t * n \<and> (invoked t = 0 \<or> (invoked t - 1) * n < c)
      | Failed \<Rightarrow> lp \<and> 0 < invoked t \<and> (invoked t - 1) * n < c)"

text \<open>
  A cell is well formed: \<open>clients.length\<close> is positive, every task is as above,
  \<open>clientsUsed\<close> has one entry for each settled task and one failure for each failed
  task, and the status is \<open>completed\<close> when every task has settled and
  \<open>in_progress\<close> otherwise.
\<close>

definition exec_ok :: "config \<Rightarrow> execution \<Rightarrow> bool" where
  "exec_ok cfg ex =
     (0 < clients_length ex \<and>
      list_all (task_ok (total cfg (banType (operation ex))) (clients_length ex)
                  (looped (banType (operation ex)))) (tasks ex) \<and>
      length (clientsUsed (operation ex)) = length (filter (\<lambda>t. finished (phase t)) (tasks ex)) \<and>
      length (filter is_failed (clientsUsed (operation ex))) =
        length (filter (\<lambda>t. phase t = Failed) (tasks ex)) \<and>
      opStatus (operation ex) =
        (if list_all (\<lambda>t. finished (phase t)) (tasks ex) then Completed else InProgress))"

text \<open>What \<open>set_task\<close>, and what \<open>succeed\<close> and \<open>fail\<close>, do to the cell they write.\<close>

definition set_task_cell :: "nat \<Rightarrow> (task \<Rightarrow> task) \<Rightarrow> execution \<Rightarrow> execution" where
  "set_task_cell w f ex = ex\<lparr>tasks := (tasks ex)[w := f (tasks ex ! w)]\<rparr>"

definition settle_cell :: "nat \<Rightarrow> phase \<Rightarrow> clientUsed \<Rightarrow> execution \<Rightarrow> execution" where
  "settle_cell w ph oc ex =
     (let ex1 = ex\<lparr>operation := (operation ex)\<lparr>clientsUsed := clientsUsed (operation ex) @ [oc]\<rparr>\<rparr>;
          ex2 = ex1\<lparr>tasks := (tasks ex1)[w := (tasks ex1 ! w)\<lparr>phase := ph\<rparr>]\<rparr>
      in if list_all (\<lambda>t. finished (phase t)) (tasks ex2)
         then ex2\<lparr>operation := (operation ex2)\<lparr>opStatus := Completed\<rparr>\<rparr> else ex2)"

text \<open>The order of the statuses: \<open>pending\<close>, \<open>in_progress\<close>, \<open>completed\<close>.\<close>

definition rank :: "op_status \<Rightarrow> nat" where
  "rank st = (case st of Pending \<Rightarrow> 0 | InProgress \<Rightarrow> 1 | Completed \<Rightarrow> 2)"

text \<open>
  How a cell may differ from an earlier version of itself: the closure variables, the
  identifying fields and the managers of the tasks are the same, the status has not gone
  down, a settled task is unchanged, and a cell whose tasks have all settled is
  unchanged.
\<close>

definition evolves :: "execution \<Rightarrow> execution \<Rightarrow> bool" where
  "evolves ex ex' =
     (clients_length ex' = clients_length ex \<and>
      map worker (tasks ex') = map worker (tasks ex) \<and>
      opId (operation ex') = opId (operation ex) \<and>
      targetNumber (operation ex') = targetNumber (operation ex) \<and>
      banType (operation ex') = banType (operation ex) \<and>
      rank (opStatus (operation ex)) \<le> rank (opStatus (operation ex')) \<and>
      list_all2 (\<lambda>t t'. finished (phase t) \<longrightarrow> t' = t) (tasks ex) (tasks ex') \<and>
      (list_all (\<lambda>t. finished (phase t)) (tasks ex) \<longrightarrow> ex' = ex))"

text \<open>The cell that an accepted \<open>POST /ban\<close> adds to the heap.\<close>

definition new_cell :: "config \<Rightarrow> string \<Rightarrow> string \<Rightarrow> string \<Rightarrow> nat list \<Rightarrow> execution" where
  "new_cell cfg operationId target bt clients =
     \<lparr>operation = \<lparr>opId = operationId, targetNumber = target, banType = bt,
                   opStatus = (if spawn (worker_cap cfg) 0 clients = [] then Completed
                               else InProgress),
                   clientsUsed = []\<rparr>,
      clients_length = length clients,
      tasks = spawn (worker_cap cfg) 0 clients\<rparr>"

text \<open>Every cell of the heap is well formed.\<close>

definition inv :: "config \<Rightarrow> state \<Rightarrow> bool" where
  "inv cfg s = list_all (exec_ok cfg) (ops s)"

text \<open>The client id that an entry of \<open>clientsUsed\<close> carries.\<close>

definition used_id :: "clientUsed \<Rightarrow> string" where
  "used_id u = (case u of UsedSuccess cid \<Rightarrow> cid | UsedFailed cid _ \<Rightarrow> cid)"

text \<open>The ids of the manager objects, by address. An object never changes its id.\<close>

definition ids :: "state \<Rightarrow> string list" where
  "ids s = map clientId (objs s)"

text \<open>Every address in the client map is an object of the heap.\<close>

definition reg_ok :: "state \<Rightarrow> bool" where
  "reg_ok s = list_all (\<lambda>p. snd p < length (objs s)) (whatsappClients s)"

text \<open>
  The tasks of a cell close over objects of the heap, and the ids in \<open>clientsUsed\<close>
  are, counted with repetitions, the ids of the managers whose tasks have settled.
\<close>

definition cell_ids_ok :: "string list \<Rightarrow> execution \<Rightarrow> bool" where
  "cell_ids_ok names ex =
     (list_all (\<lambda>t. worker t < length names) (tasks ex) \<and>
      mset (map used_id (clientsUsed (operation ex))) =
        mset (map (\<lambda>t. names ! worker t) (filter (\<lambda>t. finished (phase t)) (tasks ex))))"

text \<open>The client map and every cell of the heap are as the last two definitions say.\<close>

definition ids_ok :: "state \<Rightarrow> bool" where
  "ids_ok s = (reg_ok s \<and> list_all (cell_ids_ok (ids s)) (ops s))"

section \<open>Readings of the answers, and the runs used as examples\<close>

text \<open>The operations that an answer of \<open>GET /status\<close> lists.\<close>

definition status_operations :: "response \<Rightarrow> operation list" where
  "status_operations r = (case r of StatusJson _ _ _ _ os \<Rightarrow> os | _ \<Rightarrow> [])"

text \<open>
  A client that is disconnected while an operation it was selected for waits for its
  first delay.
\<close>

definition disconnected_before_dispatch :: "event list" where
  "disconnected_before_dispatch =
     [ClientEvent 0 ReadyEv, PostBan ''T1'' ''MESSAGE_DELUGE'' ''op_1'',
      ClientEvent 0 (DisconnectedEv None)]"

text \<open>From a pool of three, the third client becomes ready and the first is removed.\<close>

definition shrunk_pool :: "event list" where
  "shrunk_pool =
     [ClientEvent 2 ReadyEv, PostRemove ''client_1'', DestroySettled 0 True]"

text \<open>The only client of the pool is removed, and its wrapped client shuts down cleanly.\<close>

definition removal :: "event list" where
  "removal = [PostRemove ''client_1'', DestroySettled 0 True]"

text \<open>Two clients of three become ready; the third fails to initialise.\<close>

definition two_of_three_ready :: "event list" where
  "two_of_three_ready =
     [ClientEvent 0 ReadyEv, ClientEvent 1 ReadyEv, ClientEvent 2 (InitError ''timeout'')]"

text \<open>
  The runs of tasks below are of \<open>REPORT_FLOOD\<close>, whose passes call \<open>sendReport\<close> and
  nothing of the client library: a task needs only its timers to fire.
\<close>

text \<open>
  The first client is disconnected before its first delay is over, and its task fails at
  its first call; the task of the second client makes its 25 calls and ends.
\<close>

definition one_disconnected_one_done :: "event list" where
  "one_disconnected_one_done =
     ClientEvent 0 (DisconnectedEv None) # TaskTimer 0 0 # replicate 26 (TaskTimer 0 1)"

text \<open>All three clients of the pool become ready.\<close>

definition three_ready :: "event list" where
  "three_ready = [ClientEvent 0 ReadyEv, ClientEvent 1 ReadyEv, ClientEvent 2 ReadyEv]"

text \<open>The first delay of the first task of operation 0, and 17 pauses between reports.\<close>

definition seventeen_reports :: "event list" where
  "seventeen_reports = replicate 18 (TaskTimer 0 0)"

text \<open>A second client is added to a pool of one, and both become ready.\<close>

definition added_second :: "event list" where
  "added_second = [PostAdd, ClientEvent 0 ReadyEv, ClientEvent 1 ReadyEv]"

text \<open>The first delay of the first task of operation 0, and 25 pauses between reports.\<close>

definition twenty_five_reports :: "event list" where
  "twenty_five_reports = replicate 26 (TaskTimer 0 0)"

text \<open>Both clients of the pool become ready.\<close>

definition two_ready :: "event list" where
  "two_ready = [ClientEvent 0 ReadyEv, ClientEvent 1 ReadyEv]"

text \<open>config.js with a pool of three and a count of 10 reports.\<close>

definition count_ten :: config where
  "count_ten = (config_js 3)\<lparr>MASS_REPORT_COUNT := 10\<rparr>"

text \<open>The first delay of the first task of operation 0, and five pauses between reports.\<close>

definition five_reports :: "event list" where
  "five_reports = replicate 6 (TaskTimer 0 0)"

text \<open>
  One ready client, a submission with a ban type that the switch does not know, and the
  end of the first delay.
\<close>

definition unknown_kind_run :: "event list" where
  "unknown_kind_run =
     [ClientEvent 0 ReadyEv, PostBan ''T1'' ''UNKNOWN_KIND'' ''op_1'', TaskTimer 0 0]"

section \<open>Lemmas\<close>

lemma filter_update_count:
  "w < length xs \<Longrightarrow>
   length (filter P (xs[w := y])) + (if P (xs ! w) then 1 else 0) =
   length (filter P xs) + (if P y then 1 else 0)"
proof (induction xs arbitrary: w)
  case Nil
  then show ?case by simp
next
  case (Cons x xs)
  then show ?case by (cases w) auto
qed

lemma list_all_update:
  "list_all P xs \<Longrightarrow> P y \<Longrightarrow> list_all P (xs[w := y])"
  using set_update_subset_insert [of xs w y] by (auto simp: list_all_iff)

lemma list_all_update_not:
  "w < length xs \<Longrightarrow> \<not> P y \<Longrightarrow> \<not> list_all P (xs[w := y])"
  by (auto simp: list_all_iff set_update_memI)

lemma list_all_nth_not:
  "w < length xs \<Longrightarrow> \<not> P (xs ! w) \<Longrightarrow> \<not> list_all P xs"
  by (auto simp: list_all_iff)

lemma exec_ok_set_task:
  assumes "exec_ok cfg ex" "w < length (tasks ex)"
    and "\<not> finished (phase (tasks ex ! w))" "\<not> finished (phase (f (tasks ex ! w)))"
    and "task_ok (total cfg (banType (operation ex))) (clients_length ex)
           (looped (banType (operation ex))) (f (tasks ex ! w))"
  shows "exec_ok cfg (set_task_cell w f ex)"
proof -
  have a: "\<not> list_all (\<lambda>t. finished (phase t)) (tasks ex)"
    using assms(2,3) by (rule list_all_nth_not)
  have b: "\<not> list_all (\<lambda>t. finished (phase t)) ((tasks ex)[w := f (tasks ex ! w)])"
    using assms(2,4) by (rule list_all_update_not)
  have c: "length (filter (\<lambda>t. finished (phase t)) ((tasks ex)[w := f (tasks ex ! w)])) =
           length (filter (\<lambda>t. finished (phase t)) (tasks ex))"
    using filter_update_count [OF assms(2), of "\<lambda>t. finished (phase t)" "f (tasks ex ! w)"] assms(3,4)
    by simp
  have d: "length (filter (\<lambda>t. phase t = Failed) ((tasks ex)[w := f (tasks ex ! w)])) =
           length (filter (\<lambda>t. phase t = Failed) (tasks ex))"
    using filter_update_count [OF assms(2), of "\<lambda>t. phase t = Failed" "f (tasks ex ! w)"] assms(3,4)
    by (simp add: finished_def)
  show ?thesis
    using assms(1,5) a b c d
    by (simp add: exec_ok_def set_task_cell_def list_all_update)
qed

lemma exec_ok_settle:
  assumes "exec_ok cfg ex" "w < length (tasks ex)"
    and "\<not> finished (phase (tasks ex ! w))" "finished ph"
    and "task_ok (total cfg (banType (operation ex))) (clients_length ex)
           (looped (banType (operation ex))) ((tasks ex ! w)\<lparr>phase := ph\<rparr>)"
    and "is_failed oc = (ph = Failed)"
  shows "exec_ok cfg (settle_cell w ph oc ex)"
proof -
  let ?ts = "(tasks ex)[w := (tasks ex ! w)\<lparr>phase := ph\<rparr>]"
  have a: "\<not> list_all (\<lambda>t. finished (phase t)) (tasks ex)"
    using assms(2,3) by (rule list_all_nth_not)
  have c: "length (filter (\<lambda>t. finished (phase t)) ?ts) =
           Suc (length (filter (\<lambda>t. finished (phase t)) (tasks ex)))"
    using filter_update_count [OF assms(2), of "\<lambda>t. finished (phase t)" "(tasks ex ! w)\<lparr>phase := ph\<rparr>"] assms(3,4)
    by simp
  have d: "length (filter (\<lambda>t. phase t = Failed) ?ts) =
           length (filter (\<lambda>t. phase t = Failed) (tasks ex)) + (if ph = Failed then 1 else 0)"
    using filter_update_count [OF assms(2), of "\<lambda>t. phase t = Failed" "(tasks ex ! w)\<lparr>phase := ph\<rparr>"] assms(3)
    by (simp add: finished_def)
  show ?thesis
    using assms(1,5,6) a c d
    by (simp add: exec_ok_def settle_cell_def Let_def list_all_update)
qed

lemma exec_ok_settle_after:
  assumes "exec_ok cfg ex" "w < length (tasks ex)"
    and "\<not> finished (phase (tasks ex ! w))" "finished ph"
    and "task_ok (total cfg (banType (operation ex))) (clients_length ex)
           (looped (banType (operation ex))) ((f (tasks ex ! w))\<lparr>phase := ph\<rparr>)"
    and "is_failed oc = (ph = Failed)"
  shows "exec_ok cfg (settle_cell w ph oc (set_task_cell w f ex))"
proof -
  let ?y = "(f (tasks ex ! w))\<lparr>phase := ph\<rparr>"
  let ?ts = "(tasks ex)[w := ?y]"
  have a: "\<not> list_all (\<lambda>t. finished (phase t)) (tasks ex)"
    using assms(2,3) by (rule list_all_nth_not)
  have c: "length (filter (\<lambda>t. finished (phase t)) ?ts) =
           Suc (length (filter (\<lambda>t. finished (phase t)) (tasks ex)))"
    using filter_update_count [OF assms(2), of "\<lambda>t. finished (phase t)" ?y] assms(3,4)
    by simp
  have d: "length (filter (\<lambda>t. phase t = Failed) ?ts) =
           length (filter (\<lambda>t. phase t = Failed) (tasks ex)) + (if ph = Failed then 1 else 0)"
    using filter_update_count [OF assms(2), of "\<lambda>t. phase t = Failed" ?y] assms(3)
    by (simp add: finished_def)
  show ?thesis
    using assms(1,2,5,6) a c d
    by (simp add: exec_ok_def settle_cell_def set_task_cell_def Let_def list_all_update)
qed

lemma set_task_cell_twice:
  "w < length (tasks ex) \<Longrightarrow>
   set_task_cell w g (set_task_cell w f ex) = set_task_cell w (\<lambda>t. g (f t)) ex"
  by (simp add: set_task_cell_def)

lemma ops_set_task: "ops (set_task a w f s) = (ops s)[a := set_task_cell w f (ops s ! a)]"
  by (simp add: set_task_def set_task_cell_def)

lemma ops_called:
  "ops (called a w s) = (ops s)[a := set_task_cell w (\<lambda>t. t\<lparr>invoked := invoked t + 1\<rparr>) (ops s ! a)]"
  by (simp add: called_def ops_set_task)

lemma ops_forward: "ops (forward a w c s) = ops s"
  by (simp add: forward_def)

lemma ops_succeed:
  "a < length (ops s) \<Longrightarrow>
   ops (succeed a w s) =
   (ops s)[a := settle_cell w Succeeded (UsedSuccess (worker_id a w s)) (ops s ! a)]"
  by (simp add: succeed_def allSettled_def complete_def set_task_def set_operation_def
      sendTelegramMessageToAdmin_def settle_cell_def Let_def)

lemma ops_fail:
  "a < length (ops s) \<Longrightarrow>
   ops (fail a w e s) =
   (ops s)[a := settle_cell w Failed (UsedFailed (worker_id a w s) (message e)) (ops s ! a)]"
  by (simp add: fail_def allSettled_def complete_def set_task_def set_operation_def
      sendTelegramMessageToAdmin_def settle_cell_def Let_def)

lemma worker_id_called:
  "a < length (ops s) \<Longrightarrow> w < length (tasks (ops s ! a)) \<Longrightarrow>
   worker_id a w (called a w s) = worker_id a w s"
  by (simp add: worker_id_def called_def set_task_def)

lemma exec_ok_loop_from:
  assumes ok: "exec_ok cfg (ops s ! a)" and a: "a < length (ops s)"
    and w: "w < length (tasks (ops s ! a))"
    and nf: "\<not> finished (phase (tasks (ops s ! a) ! w))"
    and inv: "invoked (tasks (ops s ! a) ! w) = i"
    and prev: "i = 0 \<or> (i - 1) * clients_length (ops s ! a) < total cfg (banType (operation (ops s ! a)))"
  shows "exec_ok cfg (ops (loop_from cfg a w i s) ! a)"
proof -
  let ?ex = "ops s ! a"
  let ?c = "total cfg (banType (operation ?ex))"
  let ?n = "clients_length ?ex"
  have done_ok: "exec_ok cfg (settle_cell w Succeeded oc ?ex)"
    if "\<not> i * ?n < ?c" "\<not> is_failed oc" for oc
    by (rule exec_ok_settle [OF ok w nf])
       (use that inv prev in \<open>auto simp: finished_def task_ok_def\<close>)
  have fail_ok: "exec_ok cfg (settle_cell w Failed oc
                   (set_task_cell w (\<lambda>t. t\<lparr>invoked := invoked t + 1\<rparr>) ?ex))"
    if "looped (banType (operation ?ex))" "is_failed oc" "i * ?n < ?c" for oc
    by (rule exec_ok_settle_after [OF ok w nf])
       (use that inv in \<open>auto simp: finished_def task_ok_def\<close>)
  have pass_ok: "exec_ok cfg (set_task_cell w (\<lambda>t. t\<lparr>invoked := invoked t + 1, phase := ph\<rparr>) ?ex)"
    if "i * ?n < ?c" "ph = Calling i \<or> ph = Pausing i" for ph
    by (rule exec_ok_set_task [OF ok w nf])
       (use that inv in \<open>auto simp: finished_def task_ok_def\<close>)
  show ?thesis
    using a w done_ok fail_ok pass_ok
    by (auto simp: loop_from_def Let_def ops_succeed ops_fail ops_set_task ops_called ops_forward
        set_task_cell_twice total_def looped_def is_failed_def
        sendReport_def sendMessage_def addTargetToGroup_def ok
        split: sum.splits)
qed

lemma exec_ok_run_switch:
  assumes ok: "exec_ok cfg (ops s ! a)" and a: "a < length (ops s)"
    and w: "w < length (tasks (ops s ! a))"
    and ph: "phase (tasks (ops s ! a) ! w) = Delay"
  shows "exec_ok cfg (ops (run_switch cfg a w s) ! a)"
proof -
  let ?ex = "ops s ! a"
  have nf: "\<not> finished (phase (tasks ?ex ! w))"
    using ph by (simp add: finished_def)
  have t: "task_ok (total cfg (banType (operation ?ex))) (clients_length ?ex)
             (looped (banType (operation ?ex))) (tasks ?ex ! w)"
    using ok w by (simp add: exec_ok_def list_all_length)
  then have i0: "invoked (tasks ?ex ! w) = 0"
    using ph by (simp add: task_ok_def)
  show ?thesis
  proof (cases "looped (banType (operation ?ex))")
    case True
    then have "run_switch cfg a w s = loop_from cfg a w 0 s"
      by (simp add: run_switch_def looped_def Let_def)
    then show ?thesis
      using exec_ok_loop_from [OF ok a w nf i0] by simp
  next
    case False
    then have z: "total cfg (banType (operation ?ex)) = 0"
      by (auto simp: total_def looped_def)
    have "exec_ok cfg (settle_cell w Succeeded (UsedSuccess x) ?ex)" for x
      by (rule exec_ok_settle [OF ok w nf])
         (use z i0 in \<open>auto simp: finished_def task_ok_def is_failed_def\<close>)
    then show ?thesis
      using False a
      by (auto simp: run_switch_def looped_def Let_def ops_succeed sendTelegramMessageToAdmin_def)
  qed
qed

lemma exec_ok_taskTimer:
  assumes ok: "exec_ok cfg (ops s ! a)" and a: "a < length (ops s)"
  shows "exec_ok cfg (ops (taskTimer cfg a w s) ! a)"
proof (cases "w < length (tasks (ops s ! a))")
  case False
  then show ?thesis using ok by (simp add: taskTimer_def)
next
  case w: True
  let ?ex = "ops s ! a"
  have t: "task_ok (total cfg (banType (operation ?ex))) (clients_length ?ex)
             (looped (banType (operation ?ex))) (tasks ?ex ! w)"
    using ok w by (simp add: exec_ok_def list_all_length)
  show ?thesis
  proof (cases "phase (tasks ?ex ! w)")
    case Delay
    then show ?thesis
      using exec_ok_run_switch [OF ok a w] a w by (simp add: taskTimer_def)
  next
    case (Pausing i)
    have "exec_ok cfg (ops (loop_from cfg a w (i + 1) s) ! a)"
      by (rule exec_ok_loop_from [OF ok a w])
         (use t Pausing in \<open>auto simp: finished_def task_ok_def\<close>)
    then show ?thesis
      using Pausing a w by (simp add: taskTimer_def)
  qed (use ok a w in \<open>simp_all add: taskTimer_def\<close>)
qed

lemma exec_ok_connSettled:
  assumes ok: "exec_ok cfg (ops s ! a)" and a: "a < length (ops s)"
  shows "exec_ok cfg (ops (connSettled a w r s) ! a)"
proof (cases "w < length (tasks (ops s ! a))")
  case False
  then show ?thesis using ok by (simp add: connSettled_def)
next
  case w: True
  let ?ex = "ops s ! a"
  have t: "task_ok (total cfg (banType (operation ?ex))) (clients_length ?ex)
             (looped (banType (operation ?ex))) (tasks ?ex ! w)"
    using ok w by (simp add: exec_ok_def list_all_length)
  show ?thesis
  proof (cases "phase (tasks ?ex ! w)")
    case (Calling i)
    then have nf: "\<not> finished (phase (tasks ?ex ! w))"
      by (simp add: finished_def)
    have lp: "looped (banType (operation ?ex))"
      using t Calling by (auto simp: task_ok_def total_def looped_def split: if_splits)
    show ?thesis
    proof (cases "settled_error (banType (operation ?ex)) r")
      case None
      have "exec_ok cfg (set_task_cell w (\<lambda>t. t\<lparr>phase := Pausing i\<rparr>) ?ex)"
        by (rule exec_ok_set_task [OF ok w nf])
           (use t Calling in \<open>auto simp: finished_def task_ok_def\<close>)
      then show ?thesis
        using None Calling a w by (simp add: connSettled_def ops_set_task)
    next
      case (Some msg)
      have "exec_ok cfg (settle_cell w Failed (UsedFailed x y) ?ex)" for x y
        by (rule exec_ok_settle [OF ok w nf])
           (use lp t Calling in \<open>auto simp: finished_def task_ok_def is_failed_def\<close>)
      then show ?thesis
        using Some Calling a w by (simp add: connSettled_def ops_fail)
    qed
  qed (use ok a w in \<open>simp_all add: connSettled_def\<close>)
qed

lemma evolves_refl: "evolves ex ex"
  by (simp add: evolves_def list_all2_same)

lemma evolves_trans: "evolves x y \<Longrightarrow> evolves y z \<Longrightarrow> evolves x z"
proof -
  assume xy: "evolves x y" and yz: "evolves y z"
  have l: "list_all2 (\<lambda>t t'. finished (phase t) \<longrightarrow> t' = t) (tasks x) (tasks z)"
    using xy yz unfolding evolves_def by (auto simp: list_all2_conv_all_nth)
  have e: "z = x" if "list_all (\<lambda>t. finished (phase t)) (tasks x)"
    using that xy yz unfolding evolves_def by auto
  show ?thesis
    using xy yz l e unfolding evolves_def by auto
qed

lemma map_worker_update:
  "worker y = worker (xs ! w) \<Longrightarrow> map worker (xs[w := y]) = map worker xs"
  by (induction xs arbitrary: w) (auto split: nat.splits)

lemma list_all2_update_unfinished:
  "\<not> finished (phase (xs ! w)) \<Longrightarrow>
   list_all2 (\<lambda>t t'. finished (phase t) \<longrightarrow> t' = t) xs (xs[w := y])"
proof -
  assume nf: "\<not> finished (phase (xs ! w))"
  have "xs[w := y] ! i = xs ! i" if "finished (phase (xs ! i))" for i
    using that nf by (cases "i = w") auto
  then show ?thesis
    by (simp add: list_all2_conv_all_nth)
qed

lemma evolves_set_task:
  "w < length (tasks ex) \<Longrightarrow> worker (f (tasks ex ! w)) = worker (tasks ex ! w) \<Longrightarrow>
   \<not> finished (phase (tasks ex ! w)) \<Longrightarrow> evolves ex (set_task_cell w f ex)"
  by (simp add: evolves_def set_task_cell_def map_worker_update list_all2_update_unfinished
      list_all_nth_not)

lemma evolves_settle:
  "w < length (tasks ex) \<Longrightarrow> \<not> finished (phase (tasks ex ! w)) \<Longrightarrow>
   evolves ex (settle_cell w ph oc ex)"
  by (simp add: evolves_def settle_cell_def Let_def map_worker_update list_all2_update_unfinished
      list_all_nth_not rank_def split: op_status.splits)

lemma evolves_pass:
  "w < length (tasks ex) \<Longrightarrow> \<not> finished (phase (tasks ex ! w)) \<Longrightarrow>
   evolves ex (set_task_cell w (\<lambda>t. t\<lparr>invoked := invoked t + 1, phase := ph\<rparr>) ex)"
  by (rule evolves_set_task) simp_all

lemma evolves_settle_after:
  "w < length (tasks ex) \<Longrightarrow> \<not> finished (phase (tasks ex ! w)) \<Longrightarrow>
   evolves ex (settle_cell w ph oc (set_task_cell w (\<lambda>t. t\<lparr>invoked := invoked t + 1\<rparr>) ex))"
  by (rule evolves_trans [OF evolves_set_task evolves_settle])
     (simp_all add: set_task_cell_def)

lemma evolves_loop_from:
  assumes a: "a < length (ops s)" and w: "w < length (tasks (ops s ! a))"
    and nf: "\<not> finished (phase (tasks (ops s ! a) ! w))"
  shows "evolves (ops s ! a) (ops (loop_from cfg a w i s) ! a)"
  using a w evolves_pass [OF w nf] evolves_settle_after [OF w nf] evolves_settle [OF w nf]
  by (auto simp: loop_from_def Let_def ops_succeed ops_fail ops_set_task ops_called ops_forward
      set_task_cell_twice evolves_refl
      split: sum.splits)

lemma evolves_run_switch:
  assumes a: "a < length (ops s)" and w: "w < length (tasks (ops s ! a))"
    and nf: "\<not> finished (phase (tasks (ops s ! a) ! w))"
  shows "evolves (ops s ! a) (ops (run_switch cfg a w s) ! a)"
  using a evolves_loop_from [OF a w nf] evolves_settle [OF w nf]
  by (auto simp: run_switch_def Let_def ops_succeed sendTelegramMessageToAdmin_def)

lemma evolves_taskTimer:
  "a < length (ops s) \<Longrightarrow> evolves (ops s ! a) (ops (taskTimer cfg a w s) ! a)"
  by (auto simp: taskTimer_def evolves_refl finished_def
      intro: evolves_run_switch evolves_loop_from split: phase.splits)

lemma evolves_connSettled:
  "a < length (ops s) \<Longrightarrow> evolves (ops s ! a) (ops (connSettled a w r s) ! a)"
  by (auto simp: connSettled_def evolves_refl finished_def ops_fail ops_set_task
      intro: evolves_settle evolves_set_task split: phase.splits option.splits)

text \<open>A task event changes the cell of its own operation only.\<close>

lemma frame_set_task:
  "length (ops (set_task a w f s)) = length (ops s) \<and>
   (b \<noteq> a \<longrightarrow> ops (set_task a w f s) ! b = ops s ! b)"
  by (simp add: ops_set_task)

lemma frame_succeed:
  "length (ops (succeed a w s)) = length (ops s) \<and>
   (b \<noteq> a \<longrightarrow> ops (succeed a w s) ! b = ops s ! b)"
  by (simp add: succeed_def allSettled_def complete_def set_task_def set_operation_def
      sendTelegramMessageToAdmin_def Let_def)

lemma frame_fail:
  "length (ops (fail a w e s)) = length (ops s) \<and>
   (b \<noteq> a \<longrightarrow> ops (fail a w e s) ! b = ops s ! b)"
  by (simp add: fail_def allSettled_def complete_def set_task_def set_operation_def
      sendTelegramMessageToAdmin_def Let_def)

lemma frame_loop_from:
  "length (ops (loop_from cfg a w i s)) = length (ops s) \<and>
   (b \<noteq> a \<longrightarrow> ops (loop_from cfg a w i s) ! b = ops s ! b)"
  by (simp add: loop_from_def Let_def frame_set_task frame_succeed frame_fail ops_called
      ops_forward split: sum.splits)

lemma frame_taskTimer:
  "length (ops (taskTimer cfg a w s)) = length (ops s) \<and>
   (b \<noteq> a \<longrightarrow> ops (taskTimer cfg a w s) ! b = ops s ! b)"
  using frame_loop_from [of cfg a w _ s b]
  by (auto simp: taskTimer_def run_switch_def Let_def ops_succeed sendTelegramMessageToAdmin_def
      split: phase.splits)

lemma frame_connSettled:
  "length (ops (connSettled a w r s)) = length (ops s) \<and>
   (b \<noteq> a \<longrightarrow> ops (connSettled a w r s) ! b = ops s ! b)"
  by (auto simp: connSettled_def ops_fail ops_set_task split: phase.splits option.splits)

lemma ops_updateClientStatus [simp]: "ops (updateClientStatus cid st qr s) = ops s"
  by (simp add: updateClientStatus_def set_manager_def Let_def split: option.splits)

lemma ops_destroy [simp]: "ops (destroy a k s) = ops s"
  by (simp add: destroy_def)

lemma ops_initializeWhatsAppClient [simp]: "ops (initializeWhatsAppClient cid s) = ops s"
  by (simp add: initializeWhatsAppClient_def new_manager_def Let_def split: option.splits)

lemma ops_clientEvent [simp]: "ops (clientEvent a ev s) = ops s"
  by (simp add: clientEvent_def set_manager_def sendTelegramMessageToAdmin_def Let_def
      split: client_event.splits)

lemma ops_destroySettled [simp]: "ops (snd (destroySettled k ok s)) = ops s"
  by (simp add: destroySettled_def set_manager_def sendTelegramMessageToAdmin_def Let_def
      split: cont.splits)

lemma ops_timerFired [simp]: "ops (timerFired k s) = ops s"
  by (simp add: timerFired_def split: timer.splits)

lemma ops_postAdd [simp]: "ops (snd (postAdd s)) = ops s"
  by (simp add: postAdd_def)

lemma ops_postRemove [simp]: "ops (snd (postRemove cid s)) = ops s"
  by (simp add: postRemove_def split: option.splits)

lemma ops_pollTick [simp]: "ops (snd (pollTick k s)) = ops s"
  by (simp add: pollTick_def split: option.splits)

lemma ops_startup [simp]: "ops (startup cfg) = []"
proof -
  have "ops (fold (\<lambda>i. initializeWhatsAppClient (client_name (i + 1))) xs s) = ops s" for xs s
    by (induction xs arbitrary: s) simp_all
  then show ?thesis
    by (simp add: startup_def empty_state_def)
qed

lemma spawn_fresh: "list_all (\<lambda>t. phase t = Delay \<and> invoked t = 0) (spawn cap u clients)"
  by (induction clients arbitrary: u) simp_all

lemma spawn_workers: "0 \<le> u \<Longrightarrow> map worker (spawn cap u clients) = take (nat (cap - u)) clients"
proof (induction clients arbitrary: u)
  case Nil
  then show ?case by simp
next
  case (Cons c clients)
  show ?case
  proof (cases "cap \<le> u")
    case True
    then show ?thesis by simp
  next
    case False
    then have "nat (cap - u) = Suc (nat (cap - (u + 1)))"
      by simp
    with False Cons show ?thesis
      by simp
  qed
qed

lemma ops_postBan:
  "ops (snd (postBan cfg target bt operationId s)) =
     (if target = [] \<or> bt = [] \<or> availableClients s = [] then ops s
      else ops s @ [new_cell cfg operationId target bt (availableClients s)])"
proof -
  have "list_all (\<lambda>t. finished (phase t)) ts = (ts = [])"
    if "list_all (\<lambda>t. phase t = Delay \<and> invoked t = 0) ts" for ts
    using that by (cases ts) (auto simp: finished_def)
  then have e: "list_all (\<lambda>t. finished (phase t)) (spawn cap 0 cs) = (spawn cap 0 cs = [])" for cap cs
    using spawn_fresh by blast
  show ?thesis
    by (simp add: postBan_def executeBanStrategy_def createOperation_def update_conv'
        set_operation_def sendTelegramMessageToAdmin_def allSettled_def complete_def
        Let_def new_cell_def e)
qed

lemma exec_ok_new_cell:
  "clients \<noteq> [] \<Longrightarrow> exec_ok cfg (new_cell cfg operationId target bt clients)"
proof -
  let ?ts = "spawn (worker_cap cfg) 0 clients"
  have f: "list_all (\<lambda>t. phase t = Delay \<and> invoked t = 0) ?ts"
    by (rule spawn_fresh)
  have a: "list_all (task_ok c n lp) ?ts" for c n lp
    using f by (auto simp: list_all_iff task_ok_def)
  have b: "filter (\<lambda>t. finished (phase t)) ?ts = []" "filter (\<lambda>t. phase t = Failed) ?ts = []"
    using f by (auto simp: list_all_iff filter_empty_conv finished_def)
  have c: "list_all (\<lambda>t. finished (phase t)) ?ts = (?ts = [])"
    using f by (cases ?ts) (auto simp: finished_def)
  assume "clients \<noteq> []"
  then show ?thesis
    by (simp add: exec_ok_def new_cell_def a b c)
qed

lemma inv_task_event:
  assumes "inv cfg s"
    and "\<And>b. length (ops s') = length (ops s) \<and> (b \<noteq> a \<longrightarrow> ops s' ! b = ops s ! b)"
    and "a < length (ops s) \<Longrightarrow> exec_ok cfg (ops s' ! a)"
  shows "inv cfg s'"
  unfolding inv_def list_all_length
proof (intro allI impI)
  fix b assume "b < length (ops s')"
  then have b: "b < length (ops s)" using assms(2) by simp
  show "exec_ok cfg (ops s' ! b)"
  proof (cases "b = a")
    case True
    then show ?thesis using assms(3) b by simp
  next
    case False
    then show ?thesis using assms(1,2) b by (simp add: inv_def list_all_length)
  qed
qed

lemma inv_step: "inv cfg s \<Longrightarrow> inv cfg (snd (step cfg e s))"
proof (cases e)
  case (PostBan target bt operationId)
  assume "inv cfg s"
  then show ?thesis
    using PostBan by (simp add: step_def inv_def ops_postBan exec_ok_new_cell)
next
  case (TaskTimer a w)
  assume i: "inv cfg s"
  have "inv cfg (taskTimer cfg a w s)"
    by (rule inv_task_event [OF i frame_taskTimer])
       (use i in \<open>simp add: inv_def list_all_length exec_ok_taskTimer\<close>)
  then show ?thesis using TaskTimer by (simp add: step_def)
next
  case (ConnSettled a w r)
  assume i: "inv cfg s"
  have "inv cfg (connSettled a w r s)"
    by (rule inv_task_event [OF i frame_connSettled])
       (use i in \<open>simp add: inv_def list_all_length exec_ok_connSettled\<close>)
  then show ?thesis using ConnSettled by (simp add: step_def)
qed (simp_all add: step_def inv_def)

lemma inv_run: "inv cfg s \<Longrightarrow> inv cfg (run cfg es s)"
  by (induction es arbitrary: s) (simp_all add: inv_step)

lemma inv_startup: "inv cfg (startup cfg)"
  by (simp add: inv_def)

lemma evolves_step:
  assumes "a < length (ops s)"
  shows "evolves (ops s ! a) (ops (snd (step cfg e s)) ! a)"
proof (cases e)
  case (PostBan target bt operationId)
  then show ?thesis
    using assms by (simp add: step_def ops_postBan nth_append evolves_refl)
next
  case (TaskTimer b w)
  then show ?thesis
    using assms frame_taskTimer [of cfg b w s a] evolves_taskTimer [of a s cfg w]
    by (cases "a = b") (simp_all add: step_def evolves_refl)
next
  case (ConnSettled b w r)
  then show ?thesis
    using assms frame_connSettled [of b w r s a] evolves_connSettled [of a s w r]
    by (cases "a = b") (simp_all add: step_def evolves_refl)
qed (simp_all add: step_def evolves_refl)

lemma length_ops_step: "length (ops s) \<le> length (ops (snd (step cfg e s)))"
  using frame_taskTimer [of cfg _ _ s 0] frame_connSettled [of _ _ _ s 0]
  by (cases e) (simp_all add: step_def ops_postBan)

lemma evolves_run:
  "a < length (ops s) \<Longrightarrow>
   a < length (ops (run cfg es s)) \<and> evolves (ops s ! a) (ops (run cfg es s) ! a)"
proof (induction es arbitrary: s)
  case Nil
  then show ?case by (simp add: evolves_refl)
next
  case (Cons e es)
  let ?s1 = "snd (step cfg e s)"
  have a1: "a < length (ops ?s1)"
    using Cons.prems length_ops_step [of s cfg e] by simp
  from Cons.IH [OF a1] evolves_step [OF Cons.prems, of cfg e]
  show ?case
    by (auto intro: evolves_trans)
qed

lemma postBan_accepted:
  "fst (postBan cfg target bt operationId s) = InitiatedJson operationId \<Longrightarrow>
   target \<noteq> [] \<and> bt \<noteq> [] \<and> availableClients s \<noteq> []"
  by (auto simp: postBan_def split: if_splits)

lemma cell_after_postBan:
  assumes s0: "s0 = run cfg es1 (startup cfg)"
    and acc: "fst (postBan cfg target bt operationId s0) = InitiatedJson operationId"
    and s: "s = run cfg es2 (snd (postBan cfg target bt operationId s0))"
  shows "length (ops s0) < length (ops s)"
    and "exec_ok cfg (ops s ! length (ops s0))"
    and "evolves (new_cell cfg operationId target bt (availableClients s0)) (ops s ! length (ops s0))"
proof -
  let ?s1 = "snd (postBan cfg target bt operationId s0)"
  let ?a = "length (ops s0)"
  have i0: "inv cfg s0"
    using s0 by (simp add: inv_run inv_startup)
  have "inv cfg (snd (step cfg (PostBan target bt operationId) s0))"
    using i0 by (rule inv_step)
  then have i1: "inv cfg ?s1"
    by (simp add: step_def)
  have o1: "ops ?s1 = ops s0 @ [new_cell cfg operationId target bt (availableClients s0)]"
    using postBan_accepted [OF acc] by (simp add: ops_postBan)
  then have a1: "?a < length (ops ?s1)"
    by simp
  from evolves_run [OF a1, of cfg es2] s o1
  show "?a < length (ops s)"
    and "evolves (new_cell cfg operationId target bt (availableClients s0)) (ops s ! ?a)"
    by simp_all
  then show "exec_ok cfg (ops s ! ?a)"
    using inv_run [OF i1, of es2] s by (simp add: inv_def list_all_length)
qed

lemma ceiling_quotient:
  fixes c k n :: nat
  assumes "0 < n" "c \<le> k * n" "k = 0 \<or> (k - 1) * n < c"
  shows "k = (c + n - 1) div n"
proof (cases "k = 0")
  case True
  then show ?thesis using assms by simp
next
  case False
  then obtain j where k: "k = Suc j" by (cases k) auto
  have "n * k \<le> c + n - 1" "c + n - 1 < n * Suc k"
    using assms k by (simp_all add: algebra_simps)
  then have "(c + n - 1) div n = k"
    by (rule div_nat_eqI)
  then show ?thesis by simp
qed

lemma connLog_set_task [simp]: "connLog (set_task a w f s) = connLog s"
  by (simp add: set_task_def)

lemma connLog_called [simp]: "connLog (called a w s) = connLog s"
  by (simp add: called_def)

lemma connLog_succeed [simp]: "connLog (succeed a w s) = connLog s"
  by (simp add: succeed_def allSettled_def complete_def set_task_def set_operation_def
      sendTelegramMessageToAdmin_def Let_def)

lemma connLog_fail [simp]: "connLog (fail a w e s) = connLog s"
  by (simp add: fail_def allSettled_def complete_def set_task_def set_operation_def
      sendTelegramMessageToAdmin_def Let_def)

lemma connLog_loop_from_not_ready:
  "status (objs s ! worker (tasks (ops s ! a) ! w)) \<noteq> Ready \<Longrightarrow>
   connLog (loop_from cfg a w i s) = connLog s"
  by (simp add: loop_from_def Let_def sendReport_def sendMessage_def addTargetToGroup_def)

lemma connLog_taskTimer_not_ready:
  "status (objs s ! worker (tasks (ops s ! a) ! w)) \<noteq> Ready \<Longrightarrow>
   connLog (taskTimer cfg a w s) = connLog s"
  by (simp add: taskTimer_def run_switch_def Let_def connLog_loop_from_not_ready
      sendTelegramMessageToAdmin_def split: phase.splits)

lemma activeOperations_postBan:
  "fst (postBan cfg target bt operationId s) = InitiatedJson operationId \<Longrightarrow>
   activeOperations (snd (postBan cfg target bt operationId s)) =
     AList.update operationId (length (ops s)) (activeOperations s)"
  by (auto simp: postBan_def executeBanStrategy_def createOperation_def update_conv'
      set_operation_def sendTelegramMessageToAdmin_def allSettled_def complete_def Let_def
      split: if_splits)

lemma objs_destroy [simp]: "objs (destroy a k s) = objs s"
  by (simp add: destroy_def)

lemma add_assigns_size_plus_one:
  "map_of (whatsappClients (snd (postAdd s))) (''client_'' @ decimal (length (whatsappClients s) + 1)) =
     Some (length (objs s)) \<and>
   length (objs (snd (postAdd s))) = Suc (length (objs s)) \<and>
   clientId (objs (snd (postAdd s)) ! length (objs s)) =
     ''client_'' @ decimal (length (whatsappClients s) + 1) \<and>
   pollers (snd (postAdd s)) = pollers s @ [''client_'' @ decimal (length (whatsappClients s) + 1)]"
  by (simp add: postAdd_def newClientId_def client_name_def initializeWhatsAppClient_def
      new_manager_def update_conv' Let_def split: option.splits)

lemma completed_all_finished:
  "exec_ok cfg ex \<Longrightarrow> opStatus (operation ex) = Completed \<Longrightarrow>
   list_all (\<lambda>t. finished (phase t)) (tasks ex)"
  by (auto simp: exec_ok_def split: if_splits)

lemma filter_all: "list_all P xs \<Longrightarrow> filter P xs = xs"
  by (induction xs) auto

lemma plain_task_phase:
  assumes "exec_ok cfg ex" "w < length (tasks ex)" "\<not> looped (banType (operation ex))"
  shows "(phase (tasks ex ! w) = Delay \<or> phase (tasks ex ! w) = Succeeded) \<and>
         invoked (tasks ex ! w) = 0"
proof -
  have z: "total cfg (banType (operation ex)) = 0"
    using assms(3) by (auto simp: total_def looped_def)
  have "task_ok 0 (clients_length ex) False (tasks ex ! w)"
    using assms z by (simp add: exec_ok_def list_all_length)
  then show ?thesis
    by (cases "phase (tasks ex ! w)") (simp_all add: task_ok_def)
qed

lemma plain_task_finishes:
  assumes ok: "exec_ok cfg (ops s ! a)" and a: "a < length (ops s)"
    and w: "w < length (tasks (ops s ! a))"
    and plain: "\<not> looped (banType (operation (ops s ! a)))"
  shows "finished (phase (tasks (ops (taskTimer cfg a w s) ! a) ! w))"
proof -
  from plain_task_phase [OF ok w plain]
  consider "phase (tasks (ops s ! a) ! w) = Delay" | "phase (tasks (ops s ! a) ! w) = Succeeded"
    by blast
  then show ?thesis
  proof cases
    case 1
    then show ?thesis
      using a w plain
      by (auto simp: taskTimer_def run_switch_def looped_def Let_def ops_succeed
          sendTelegramMessageToAdmin_def settle_cell_def finished_def)
  next
    case 2
    then show ?thesis
      using a w by (simp add: taskTimer_def finished_def)
  qed
qed

lemma evolves_finished:
  "evolves ex ex' \<Longrightarrow> w < length (tasks ex) \<Longrightarrow> finished (phase (tasks ex ! w)) \<Longrightarrow>
   finished (phase (tasks ex' ! w))"
  by (auto simp: evolves_def list_all2_conv_all_nth)

lemma evolves_length: "evolves ex ex' \<Longrightarrow> length (tasks ex') = length (tasks ex)"
  by (auto simp: evolves_def dest: map_eq_imp_length_eq)

lemma wake_all:
  assumes "inv cfg s" "a < length (ops s)" "\<not> looped (banType (operation (ops s ! a)))"
    and "w \<in> set ws" "w < length (tasks (ops s ! a))"
  shows "finished (phase (tasks (ops (run cfg (map (TaskTimer a) ws) s) ! a) ! w))"
  using assms
proof (induction ws arbitrary: s)
  case Nil
  then show ?case by simp
next
  case (Cons v ws)
  let ?s1 = "taskTimer cfg a v s"
  have s1: "snd (step cfg (TaskTimer a v) s) = ?s1"
    by (simp add: step_def)
  have i1: "inv cfg ?s1"
    using inv_step [OF Cons.prems(1), of "TaskTimer a v"] s1 by simp
  have a1: "a < length (ops ?s1)"
    using Cons.prems(2) frame_taskTimer [of cfg a v s a] by simp
  have ev: "evolves (ops s ! a) (ops ?s1 ! a)"
    using Cons.prems(2) by (rule evolves_taskTimer)
  then have b1: "\<not> looped (banType (operation (ops ?s1 ! a)))"
    using Cons.prems(3) by (simp add: evolves_def)
  have l1: "w < length (tasks (ops ?s1 ! a))"
    using Cons.prems(5) evolves_length [OF ev] by simp
  show ?case
  proof (cases "w = v")
    case True
    have ok: "exec_ok cfg (ops s ! a)"
      using Cons.prems(1,2) by (simp add: inv_def list_all_length)
    have "finished (phase (tasks (ops ?s1 ! a) ! w))"
      using plain_task_finishes [OF ok Cons.prems(2) _ Cons.prems(3), of w] Cons.prems(5) True
      by simp
    with evolves_run [OF a1, of cfg "map (TaskTimer a) ws"] l1
    show ?thesis
      by (auto simp: s1 intro: evolves_finished)
  next
    case False
    then have "w \<in> set ws" using Cons.prems(4) by simp
    from Cons.IH [OF i1 a1 b1 this l1] show ?thesis
      by (simp add: s1)
  qed
qed

lemma wake_all_completes:
  assumes "inv cfg s" "a < length (ops s)" "\<not> looped (banType (operation (ops s ! a)))"
    and "s' = run cfg (map (TaskTimer a) [0..<length (tasks (ops s ! a))]) s"
  shows "opStatus (operation (ops s' ! a)) = Completed"
proof -
  have e: "a < length (ops s') \<and> evolves (ops s ! a) (ops s' ! a)"
    using evolves_run [OF assms(2)] assms(4) by simp
  then have len: "length (tasks (ops s' ! a)) = length (tasks (ops s ! a))"
    by (simp add: evolves_length)
  have "finished (phase (tasks (ops s' ! a) ! w))" if "w < length (tasks (ops s ! a))" for w
    using wake_all [OF assms(1,2,3), of w "[0..<length (tasks (ops s ! a))]"] that assms(4)
    by simp
  then have all: "list_all (\<lambda>t. finished (phase t)) (tasks (ops s' ! a))"
    using len by (simp add: list_all_length)
  have "exec_ok cfg (ops s' ! a)"
    using inv_run [OF assms(1), of "map (TaskTimer a) [0..<length (tasks (ops s ! a))]"] e assms(4)
    by (simp add: inv_def list_all_length)
  then show ?thesis
    using all by (simp add: exec_ok_def)
qed

lemma filter_none: "length (filter P xs) = 0 \<Longrightarrow> list_all (\<lambda>x. \<not> P x) xs"
  by (induction xs) (auto split: if_splits)

lemma map_clientId_update:
  "clientId y = clientId (xs ! a) \<Longrightarrow> map clientId (xs[a := y]) = map clientId xs"
  by (induction xs arbitrary: a) (auto split: nat.splits)

lemma names_set_manager:
  "(\<And>m. clientId (f m) = clientId m) \<Longrightarrow>
   map clientId (objs (set_manager a f s)) = map clientId (objs s)"
  by (simp add: set_manager_def map_clientId_update)

lemma length_objs_set_manager [simp]: "length (objs (set_manager a f s)) = length (objs s)"
  by (simp add: set_manager_def)

lemma whatsappClients_set_manager [simp]: "whatsappClients (set_manager a f s) = whatsappClients s"
  by (simp add: set_manager_def)

lemma ids_updateClientStatus [simp]: "ids (updateClientStatus cid st qr s) = ids s"
  by (simp add: updateClientStatus_def ids_def names_set_manager Let_def
      split: option.splits)

lemma whatsappClients_updateClientStatus [simp]:
  "whatsappClients (updateClientStatus cid st qr s) = whatsappClients s"
  by (simp add: updateClientStatus_def set_manager_def Let_def split: option.splits)

lemma ids_destroy [simp]: "ids (destroy a k s) = ids s"
  by (simp add: ids_def)

lemma whatsappClients_destroy [simp]: "whatsappClients (destroy a k s) = whatsappClients s"
  by (simp add: destroy_def)

lemma length_ids [simp]: "length (ids s) = length (objs s)"
  by (simp add: ids_def)

lemma set_delete_subset: "set (AList.delete k al) \<subseteq> set al"
  by (auto simp: AList.delete_eq)

lemma set_update_subset: "set (AList.update k v al) \<subseteq> insert (k, v) (set al)"
  by (induction al) auto

lemma reg_ok_grow:
  assumes "reg_ok s" "length (objs s) \<le> length (objs s')"
    and "set (whatsappClients s') \<subseteq> insert (k, a) (set (whatsappClients s))"
    and "a < length (objs s')"
  shows "reg_ok s'"
  using assms unfolding reg_ok_def list_all_iff by fastforce

lemma reg_ok_initializeWhatsAppClient:
  "reg_ok s \<Longrightarrow> reg_ok (initializeWhatsAppClient cid s)"
proof -
  assume r: "reg_ok s"
  let ?s' = "initializeWhatsAppClient cid s"
  have l: "length (objs ?s') = Suc (length (objs s))"
    by (simp add: initializeWhatsAppClient_def new_manager_def Let_def split: option.splits)
  have sub: "set (whatsappClients ?s') \<subseteq> insert (cid, length (objs s)) (set (whatsappClients s))"
    using set_update_subset [of cid "length (objs s)"] set_delete_subset [of cid "whatsappClients s"]
    by (auto simp: initializeWhatsAppClient_def new_manager_def Let_def split: option.splits)
  show ?thesis
    by (rule reg_ok_grow [OF r _ sub]) (simp_all add: l)
qed

lemma ids_initializeWhatsAppClient [simp]:
  "ids (initializeWhatsAppClient cid s) = ids s @ [cid]"
  by (simp add: initializeWhatsAppClient_def new_manager_def ids_def Let_def split: option.splits)

lemma mset_filter_update:
  "w < length xs \<Longrightarrow> \<not> P (xs ! w) \<Longrightarrow>
   mset (filter P (xs[w := y])) =
     (if P y then add_mset y (mset (filter P xs)) else mset (filter P xs))"
proof (induction xs arbitrary: w)
  case Nil
  then show ?case by simp
next
  case (Cons x xs)
  then show ?case by (cases w) auto
qed

lemma cell_ids_settle:
  assumes "cell_ids_ok names ex" "w < length (tasks ex)"
    and "\<not> finished (phase (tasks ex ! w))" "finished ph"
    and "used_id oc = names ! worker (tasks ex ! w)"
  shows "cell_ids_ok names (settle_cell w ph oc ex)"
proof -
  let ?y = "(tasks ex ! w)\<lparr>phase := ph\<rparr>"
  have m: "mset (filter (\<lambda>t. finished (phase t)) ((tasks ex)[w := ?y])) =
           add_mset ?y (mset (filter (\<lambda>t. finished (phase t)) (tasks ex)))"
    using mset_filter_update [OF assms(2), of "\<lambda>t. finished (phase t)" ?y] assms(3,4) by simp
  have "mset (map (\<lambda>t. names ! worker t) (filter (\<lambda>t. finished (phase t)) ((tasks ex)[w := ?y]))) =
        add_mset (names ! worker (tasks ex ! w))
          (mset (map (\<lambda>t. names ! worker t) (filter (\<lambda>t. finished (phase t)) (tasks ex))))"
    using arg_cong [OF m, of "image_mset (\<lambda>t. names ! worker t)"] by simp
  moreover have "list_all (\<lambda>t. worker t < length names) ((tasks ex)[w := ?y])"
    using assms(1,2) by (auto simp: cell_ids_ok_def list_all_length nth_list_update)
  ultimately show ?thesis
    using assms(1,5) by (simp add: cell_ids_ok_def settle_cell_def Let_def)
qed

lemma cell_ids_set_task:
  assumes "cell_ids_ok names ex" "w < length (tasks ex)"
    and "\<not> finished (phase (tasks ex ! w))" "\<not> finished (phase (f (tasks ex ! w)))"
    and "worker (f (tasks ex ! w)) = worker (tasks ex ! w)"
  shows "cell_ids_ok names (set_task_cell w f ex)"
proof -
  have "mset (filter (\<lambda>t. finished (phase t)) ((tasks ex)[w := f (tasks ex ! w)])) =
        mset (filter (\<lambda>t. finished (phase t)) (tasks ex))"
    using mset_filter_update [OF assms(2), of "\<lambda>t. finished (phase t)" "f (tasks ex ! w)"] assms(3,4)
    by simp
  then have "mset (map (\<lambda>t. names ! worker t)
                 (filter (\<lambda>t. finished (phase t)) ((tasks ex)[w := f (tasks ex ! w)]))) =
        mset (map (\<lambda>t. names ! worker t) (filter (\<lambda>t. finished (phase t)) (tasks ex)))"
    using arg_cong [of _ _ "image_mset (\<lambda>t. names ! worker t)"] by fastforce
  moreover have "list_all (\<lambda>t. worker t < length names) ((tasks ex)[w := f (tasks ex ! w)])"
    using assms(1,2,5) by (auto simp: cell_ids_ok_def list_all_length nth_list_update)
  ultimately show ?thesis
    using assms(1) by (simp add: cell_ids_ok_def set_task_cell_def)
qed

lemma cell_ids_extend:
  assumes "cell_ids_ok names ex"
  shows "cell_ids_ok (names @ ext) ex"
proof -
  have w: "list_all (\<lambda>t. worker t < length names) (tasks ex)"
    using assms by (simp add: cell_ids_ok_def)
  then have e: "map (\<lambda>t. (names @ ext) ! worker t) (filter (\<lambda>t. finished (phase t)) (tasks ex)) =
             map (\<lambda>t. names ! worker t) (filter (\<lambda>t. finished (phase t)) (tasks ex))"
    by (auto simp: list_all_iff nth_append)
  have l: "list_all (\<lambda>t. worker t < length (names @ ext)) (tasks ex)"
    using w by (auto simp: list_all_iff)
  from assms have "mset (map used_id (clientsUsed (operation ex))) =
      mset (map (\<lambda>t. names ! worker t) (filter (\<lambda>t. finished (phase t)) (tasks ex)))"
    by (simp add: cell_ids_ok_def)
  with l show ?thesis
    unfolding cell_ids_ok_def e by blast
qed

lemma objs_set_task [simp]: "objs (set_task a w f s) = objs s"
  by (simp add: set_task_def)

lemma objs_called [simp]: "objs (called a w s) = objs s"
  by (simp add: called_def)

lemma objs_succeed [simp]: "objs (succeed a w s) = objs s"
  by (simp add: succeed_def allSettled_def complete_def set_task_def set_operation_def
      sendTelegramMessageToAdmin_def Let_def)

lemma objs_fail [simp]: "objs (fail a w e s) = objs s"
  by (simp add: fail_def allSettled_def complete_def set_task_def set_operation_def
      sendTelegramMessageToAdmin_def Let_def)

lemma objs_loop_from [simp]: "objs (loop_from cfg a w i s) = objs s"
  by (simp add: loop_from_def forward_def Let_def split: sum.splits)

lemma objs_taskTimer [simp]: "objs (taskTimer cfg a w s) = objs s"
  by (simp add: taskTimer_def run_switch_def sendTelegramMessageToAdmin_def Let_def
      split: phase.splits)

lemma objs_connSettled [simp]: "objs (connSettled a w r s) = objs s"
  by (simp add: connSettled_def split: phase.splits option.splits)

lemma whatsappClients_set_task [simp]: "whatsappClients (set_task a w f s) = whatsappClients s"
  by (simp add: set_task_def)

lemma whatsappClients_called [simp]: "whatsappClients (called a w s) = whatsappClients s"
  by (simp add: called_def)

lemma whatsappClients_succeed [simp]: "whatsappClients (succeed a w s) = whatsappClients s"
  by (simp add: succeed_def allSettled_def complete_def set_task_def set_operation_def
      sendTelegramMessageToAdmin_def Let_def)

lemma whatsappClients_fail [simp]: "whatsappClients (fail a w e s) = whatsappClients s"
  by (simp add: fail_def allSettled_def complete_def set_task_def set_operation_def
      sendTelegramMessageToAdmin_def Let_def)

lemma whatsappClients_loop_from [simp]: "whatsappClients (loop_from cfg a w i s) = whatsappClients s"
  by (simp add: loop_from_def forward_def Let_def split: sum.splits)

lemma whatsappClients_taskTimer [simp]: "whatsappClients (taskTimer cfg a w s) = whatsappClients s"
  by (simp add: taskTimer_def run_switch_def sendTelegramMessageToAdmin_def Let_def
      split: phase.splits)

lemma whatsappClients_connSettled [simp]: "whatsappClients (connSettled a w r s) = whatsappClients s"
  by (simp add: connSettled_def split: phase.splits option.splits)

lemma worker_name:
  assumes "cell_ids_ok (ids s) (ops s ! a)" "w < length (tasks (ops s ! a))"
  shows "worker_id a w s = ids s ! worker (tasks (ops s ! a) ! w)"
proof -
  have "worker (tasks (ops s ! a) ! w) < length (objs s)"
    using assms by (simp add: cell_ids_ok_def list_all_length)
  then show ?thesis
    by (simp add: worker_id_def ids_def)
qed

lemma cell_ids_loop_from:
  assumes ok: "cell_ids_ok (ids s) (ops s ! a)" and a: "a < length (ops s)"
    and w: "w < length (tasks (ops s ! a))"
    and nf: "\<not> finished (phase (tasks (ops s ! a) ! w))"
  shows "cell_ids_ok (ids s) (ops (loop_from cfg a w i s) ! a)"
proof -
  let ?ex = "ops s ! a"
  let ?inc = "\<lambda>t. t\<lparr>invoked := invoked t + 1\<rparr>"
  note n = worker_name [OF ok w]
  have done_ok: "cell_ids_ok (ids s) (settle_cell w Succeeded (UsedSuccess (worker_id a w s)) ?ex)"
    by (rule cell_ids_settle [OF ok w nf]) (simp_all add: finished_def used_id_def n)
  have mid: "cell_ids_ok (ids s) (set_task_cell w ?inc ?ex)"
    by (rule cell_ids_set_task [OF ok w nf]) (use nf in simp_all)
  have fail_ok: "cell_ids_ok (ids s)
      (settle_cell w Failed (UsedFailed (worker_id a w s) msg) (set_task_cell w ?inc ?ex))" for msg
    by (rule cell_ids_settle [OF mid])
       (use w nf in \<open>simp_all add: set_task_cell_def finished_def used_id_def n\<close>)
  have pass_ok: "cell_ids_ok (ids s)
      (set_task_cell w (\<lambda>t. t\<lparr>invoked := invoked t + 1, phase := ph\<rparr>) ?ex)"
    if "ph = Calling i \<or> ph = Pausing i" for ph
    by (rule cell_ids_set_task [OF ok w nf]) (use that in \<open>auto simp: finished_def\<close>)
  show ?thesis
    using a w done_ok fail_ok pass_ok ok
    by (auto simp: loop_from_def Let_def ops_succeed ops_fail ops_set_task ops_called ops_forward
        set_task_cell_twice worker_id_called split: sum.splits)
qed

lemma cell_ids_taskTimer:
  assumes ok: "cell_ids_ok (ids s) (ops s ! a)" and a: "a < length (ops s)"
  shows "cell_ids_ok (ids s) (ops (taskTimer cfg a w s) ! a)"
proof (cases "w < length (tasks (ops s ! a))")
  case False
  then show ?thesis using ok by (simp add: taskTimer_def)
next
  case w: True
  show ?thesis
  proof (cases "phase (tasks (ops s ! a) ! w)")
    case Delay
    then have nf: "\<not> finished (phase (tasks (ops s ! a) ! w))"
      by (simp add: finished_def)
    have "cell_ids_ok (ids s) (settle_cell w Succeeded (UsedSuccess (worker_id a w s)) (ops s ! a))"
      by (rule cell_ids_settle [OF ok w nf])
         (simp_all add: finished_def used_id_def worker_name [OF ok w])
    then show ?thesis
      using Delay a w cell_ids_loop_from [OF ok a w nf, of cfg 0]
      by (auto simp: taskTimer_def run_switch_def Let_def ops_succeed
          sendTelegramMessageToAdmin_def worker_id_def)
  next
    case (Pausing i)
    then have nf: "\<not> finished (phase (tasks (ops s ! a) ! w))"
      by (simp add: finished_def)
    show ?thesis
      using Pausing a w cell_ids_loop_from [OF ok a w nf, of cfg "i + 1"]
      by (simp add: taskTimer_def)
  qed (use ok a w in \<open>simp_all add: taskTimer_def\<close>)
qed

lemma cell_ids_connSettled:
  assumes ok: "cell_ids_ok (ids s) (ops s ! a)" and a: "a < length (ops s)"
  shows "cell_ids_ok (ids s) (ops (connSettled a w r s) ! a)"
proof (cases "w < length (tasks (ops s ! a))")
  case False
  then show ?thesis using ok by (simp add: connSettled_def)
next
  case w: True
  show ?thesis
  proof (cases "phase (tasks (ops s ! a) ! w)")
    case (Calling i)
    then have nf: "\<not> finished (phase (tasks (ops s ! a) ! w))"
      by (simp add: finished_def)
    have p: "cell_ids_ok (ids s) (set_task_cell w (\<lambda>t. t\<lparr>phase := Pausing i\<rparr>) (ops s ! a))"
      by (rule cell_ids_set_task [OF ok w nf]) (simp_all add: finished_def)
    have f: "cell_ids_ok (ids s) (settle_cell w Failed (UsedFailed (worker_id a w s) msg) (ops s ! a))"
      for msg
      by (rule cell_ids_settle [OF ok w nf])
         (simp_all add: finished_def used_id_def worker_name [OF ok w])
    show ?thesis
      using Calling a w p f
      by (cases "settled_error (banType (operation (ops s ! a))) r")
         (simp_all add: connSettled_def ops_set_task ops_fail)
  qed (use ok a w in \<open>simp_all add: connSettled_def\<close>)
qed

lemma reg_ok_same:
  "set (whatsappClients s') \<subseteq> set (whatsappClients s) \<Longrightarrow> length (objs s) \<le> length (objs s') \<Longrightarrow>
   reg_ok s \<Longrightarrow> reg_ok s'"
  unfolding reg_ok_def list_all_iff by fastforce

lemma ids_sendTelegram [simp]: "ids (sendTelegramMessageToAdmin n s) = ids s"
  by (simp add: ids_def sendTelegramMessageToAdmin_def)

lemma whatsappClients_sendTelegram [simp]:
  "whatsappClients (sendTelegramMessageToAdmin n s) = whatsappClients s"
  by (simp add: sendTelegramMessageToAdmin_def)

lemma ids_set_manager_status [simp]:
  "(\<And>m. clientId (f m) = clientId m) \<Longrightarrow> ids (set_manager a f s) = ids s"
  by (simp add: ids_def names_set_manager)

lemma ids_clientEvent [simp]: "ids (clientEvent a ev s) = ids s"
  by (simp add: clientEvent_def Let_def split: client_event.splits)

lemma whatsappClients_clientEvent [simp]:
  "whatsappClients (clientEvent a ev s) = whatsappClients s"
  by (simp add: clientEvent_def Let_def split: client_event.splits)

lemma ids_destroySettled [simp]: "ids (snd (destroySettled k ok s)) = ids s"
proof -
  have "ids (s\<lparr>destroys := d\<rparr>) = ids s" "ids (s\<lparr>whatsappClients := c\<rparr>) = ids s" for s d c
    by (simp_all add: ids_def)
  then show ?thesis
    by (simp add: destroySettled_def Let_def split: cont.splits)
qed

lemma whatsappClients_destroySettled:
  "set (whatsappClients (snd (destroySettled k ok s))) \<subseteq> set (whatsappClients s)"
proof -
  have "set (AList.delete cid (whatsappClients s)) \<subseteq> set (whatsappClients s)" for cid
    by (rule set_delete_subset)
  then show ?thesis
    by (simp add: destroySettled_def Let_def split: cont.splits)
qed

lemma registry_step:
  assumes "ids_ok s" "ops s' = ops s" "ids s' = ids s @ ext" "reg_ok s'"
  shows "ids_ok s'"
  using assms by (auto simp: ids_ok_def list_all_iff intro: cell_ids_extend)

lemma ids_ok_initializeWhatsAppClient:
  "ids_ok s \<Longrightarrow> ids_ok (initializeWhatsAppClient cid s)"
  by (rule registry_step [where ext = "[cid]"])
     (simp_all add: reg_ok_initializeWhatsAppClient ids_ok_def)

lemma ids_ok_fields:
  "ops s' = ops s \<Longrightarrow> objs s' = objs s \<Longrightarrow> whatsappClients s' = whatsappClients s \<Longrightarrow>
   ids_ok s' = ids_ok s"
  by (simp add: ids_ok_def reg_ok_def ids_def)

lemma ids_ok_clientEvent: "ids_ok s \<Longrightarrow> ids_ok (clientEvent a ev s)"
proof (rule registry_step [where ext = "[]"])
  assume i: "ids_ok s"
  have "length (ids (clientEvent a ev s)) = length (ids s)"
    by (simp only: ids_clientEvent)
  then have "length (objs (clientEvent a ev s)) = length (objs s)"
    by (simp only: length_ids)
  then show "reg_ok (clientEvent a ev s)"
    using i by (simp add: reg_ok_def ids_ok_def)
qed simp_all

lemma ids_ok_destroySettled: "ids_ok s \<Longrightarrow> ids_ok (snd (destroySettled k ok s))"
proof (rule registry_step [where ext = "[]"])
  assume i: "ids_ok s"
  have "length (ids (snd (destroySettled k ok s))) = length (ids s)"
    by (simp only: ids_destroySettled)
  then have l: "length (objs (snd (destroySettled k ok s))) = length (objs s)"
    by (simp only: length_ids)
  show "reg_ok (snd (destroySettled k ok s))"
    by (rule reg_ok_same [OF whatsappClients_destroySettled]) (use i l in \<open>simp_all add: ids_ok_def\<close>)
qed simp_all

lemma ids_ok_timerFired: "ids_ok s \<Longrightarrow> ids_ok (timerFired k s)"
proof -
  assume i: "ids_ok s"
  have t: "ids_ok (s\<lparr>timers := x\<rparr>)" for x
    using i ids_ok_fields [of "s\<lparr>timers := x\<rparr>" s] by simp
  have p: "ids_ok (s\<lparr>timers := x, activeOperations := y\<rparr>)" for x y
    using i ids_ok_fields [of "s\<lparr>timers := x, activeOperations := y\<rparr>" s] by simp
  show ?thesis
    using i t p by (simp add: timerFired_def ids_ok_initializeWhatsAppClient split: timer.splits)
qed

lemma ids_ok_postAdd: "ids_ok s \<Longrightarrow> ids_ok (snd (postAdd s))"
proof -
  assume "ids_ok s"
  then have "ids_ok (initializeWhatsAppClient (newClientId s) s)"
    by (rule ids_ok_initializeWhatsAppClient)
  then show ?thesis
    using ids_ok_fields [of "snd (postAdd s)" "initializeWhatsAppClient (newClientId s) s"]
    by (simp add: postAdd_def)
qed

lemma ids_ok_postRemove: "ids_ok s \<Longrightarrow> ids_ok (snd (postRemove cid s))"
  using ids_ok_fields [of "destroy a (RemoveCont cid) s" s for a]
  by (simp add: postRemove_def destroy_def split: option.splits)

lemma ids_ok_pollTick: "ids_ok s \<Longrightarrow> ids_ok (snd (pollTick k s))"
  using ids_ok_fields [of "s\<lparr>pollers := x\<rparr>" s for x]
  by (simp add: pollTick_def split: option.splits)

lemma cell_ids_new_cell:
  assumes "reg_ok s"
  shows "cell_ids_ok (ids s) (new_cell cfg operationId target bt (availableClients s))"
proof -
  let ?ts = "spawn (worker_cap cfg) 0 (availableClients s)"
  have "set (map worker ?ts) \<subseteq> set (availableClients s)"
    using spawn_workers [of 0 "worker_cap cfg" "availableClients s"] set_take_subset
    by (metis order_refl)
  moreover have "a < length (objs s)" if "a \<in> set (availableClients s)" for a
    using that assms by (auto simp: availableClients_def reg_ok_def list_all_iff)
  ultimately have w: "list_all (\<lambda>t. worker t < length (ids s)) ?ts"
    by (auto simp: list_all_iff)
  have "filter (\<lambda>t. finished (phase t)) ?ts = []"
    using spawn_fresh [of "worker_cap cfg" 0 "availableClients s"]
    by (auto simp: list_all_iff filter_empty_conv finished_def)
  then show ?thesis
    using w by (simp add: cell_ids_ok_def new_cell_def)
qed

lemma objs_postBan [simp]: "objs (snd (postBan cfg target bt operationId s)) = objs s"
  by (simp add: postBan_def executeBanStrategy_def createOperation_def set_operation_def
      sendTelegramMessageToAdmin_def allSettled_def complete_def Let_def split: option.splits)

lemma whatsappClients_postBan [simp]:
  "whatsappClients (snd (postBan cfg target bt operationId s)) = whatsappClients s"
  by (simp add: postBan_def executeBanStrategy_def createOperation_def set_operation_def
      sendTelegramMessageToAdmin_def allSettled_def complete_def Let_def split: option.splits)

lemma ids_ok_task_event:
  assumes "ids_ok s" "objs s' = objs s" "whatsappClients s' = whatsappClients s"
    and "\<And>b. length (ops s') = length (ops s) \<and> (b \<noteq> a \<longrightarrow> ops s' ! b = ops s ! b)"
    and "a < length (ops s) \<Longrightarrow> cell_ids_ok (ids s) (ops s' ! a)"
  shows "ids_ok s'"
proof -
  have "cell_ids_ok (ids s') (ops s' ! b)" if "b < length (ops s')" for b
  proof (cases "b = a")
    case True
    then show ?thesis using that assms(2,4,5) by (simp add: ids_def)
  next
    case False
    then show ?thesis
      using that assms(1,2,4) by (simp add: ids_ok_def ids_def list_all_length)
  qed
  then show ?thesis
    using assms(1,2,3) by (simp add: ids_ok_def reg_ok_def list_all_length)
qed

lemma ids_ok_step: "ids_ok s \<Longrightarrow> ids_ok (snd (step cfg e s))"
proof (cases e)
  case (PostBan target bt operationId)
  assume i: "ids_ok s"
  let ?s' = "snd (postBan cfg target bt operationId s)"
  have "reg_ok ?s'"
    using i by (simp add: ids_ok_def reg_ok_def)
  moreover have "list_all (cell_ids_ok (ids ?s')) (ops ?s')"
    using i cell_ids_new_cell [of s cfg operationId target bt]
    by (simp add: ids_ok_def ops_postBan ids_def)
  ultimately show ?thesis
    using PostBan by (simp add: step_def ids_ok_def)
next
  case (TaskTimer a w)
  assume i: "ids_ok s"
  have "ids_ok (taskTimer cfg a w s)"
    by (rule ids_ok_task_event [OF i _ _ frame_taskTimer])
       (use i in \<open>simp_all add: ids_ok_def list_all_length cell_ids_taskTimer\<close>)
  then show ?thesis using TaskTimer by (simp add: step_def)
next
  case (ConnSettled a w r)
  assume i: "ids_ok s"
  have "ids_ok (connSettled a w r s)"
    by (rule ids_ok_task_event [OF i _ _ frame_connSettled])
       (use i in \<open>simp_all add: ids_ok_def list_all_length cell_ids_connSettled\<close>)
  then show ?thesis using ConnSettled by (simp add: step_def)
next
  case (CacheExpired cid)
  assume "ids_ok s"
  then show ?thesis
    using CacheExpired ids_ok_fields [of "s\<lparr>myCache := x\<rparr>" s for x] by (simp add: step_def)
qed (simp_all add: step_def ids_ok_postAdd ids_ok_postRemove ids_ok_clientEvent
       ids_ok_destroySettled ids_ok_timerFired ids_ok_pollTick)

lemma ids_ok_run: "ids_ok s \<Longrightarrow> ids_ok (run cfg es s)"
  by (induction es arbitrary: s) (simp_all add: ids_ok_step)

lemma ids_ok_startup: "ids_ok (startup cfg)"
proof -
  have e: "ids_ok empty_state"
    by (simp add: ids_ok_def reg_ok_def empty_state_def)
  have "ids_ok s \<Longrightarrow> ids_ok (fold (\<lambda>i. initializeWhatsAppClient (client_name (i + 1))) xs s)" for xs s
    by (induction xs arbitrary: s) (simp_all add: ids_ok_initializeWhatsAppClient)
  then show ?thesis
    using e by (simp add: startup_def)
qed

lemma ids_step: "\<exists>ext. ids (snd (step cfg e s)) = ids s @ ext"
proof (cases e)
  case (TimerFired k)
  have "ids (s\<lparr>timers := x\<rparr>) = ids s" "ids (s\<lparr>timers := x, activeOperations := y\<rparr>) = ids s" for x y
    by (simp_all add: ids_def)
  then show ?thesis
    using TimerFired by (simp add: step_def timerFired_def split: timer.splits)
next
  case PostAdd
  have "ids (t\<lparr>pollers := x\<rparr>) = ids t" for t x
    by (simp add: ids_def)
  then show ?thesis
    using PostAdd by (simp add: step_def postAdd_def)
qed (simp_all add: step_def ids_def postRemove_def pollTick_def destroy_def getStatus_def
       ids_clientEvent [unfolded ids_def] ids_destroySettled [unfolded ids_def]
       split: option.splits)

lemma ids_run: "\<exists>ext. ids (run cfg es s) = ids s @ ext"
proof (induction es arbitrary: s)
  case Nil
  then show ?case by simp
next
  case (Cons e es)
  obtain x where x: "ids (snd (step cfg e s)) = ids s @ x"
    using ids_step by blast
  obtain y where "ids (run cfg es (snd (step cfg e s))) = ids (snd (step cfg e s)) @ y"
    using Cons.IH by blast
  with x show ?case by simp
qed

lemma selected_names:
  assumes "ids_ok s0" and "ids s = ids s0 @ ext"
  shows "map (\<lambda>a. ids s ! a) (take n (availableClients s0)) =
         map (\<lambda>a. clientId (objs s0 ! a)) (take n (availableClients s0))"
proof -
  have "a < length (objs s0)" if "a \<in> set (take n (availableClients s0))" for a
  proof -
    from that have "a \<in> set (availableClients s0)"
      by (rule in_set_takeD)
    then show ?thesis
      using assms(1) by (auto simp: availableClients_def ids_ok_def reg_ok_def list_all_iff)
  qed
  then show ?thesis
    using assms(2) by (auto simp: nth_append ids_def)
qed

lemma below_ceiling:
  fixes c k n :: nat
  assumes "0 < n" "k * n < c"
  shows "Suc k \<le> (c + n - 1) div n"
proof -
  have "Suc k * n \<le> c + n - 1"
    using assms by simp
  then show ?thesis
    using assms(1) by (simp add: less_eq_div_iff_mult_less_eq)
qed

text \<open>
  A task event writes its own task only; the other tasks of the operation are as they
  were, whether the event ends in the \<open>try\<close> block or in the \<open>catch\<close> block.
\<close>

lemma sibling_set_task_cell:
  "w' \<noteq> w \<Longrightarrow> tasks (set_task_cell w f ex) ! w' = tasks ex ! w'"
  by (simp add: set_task_cell_def)

lemma sibling_settle_cell:
  "w' \<noteq> w \<Longrightarrow> tasks (settle_cell w ph oc ex) ! w' = tasks ex ! w'"
  by (simp add: settle_cell_def Let_def)


lemma own_settle_cell:
  "w < length (tasks ex) \<Longrightarrow> tasks (settle_cell w ph oc ex) ! w = (tasks ex ! w)\<lparr>phase := ph\<rparr>"
  by (simp add: settle_cell_def Let_def)

lemma sibling_loop_from:
  "a < length (ops s) \<Longrightarrow> w' \<noteq> w \<Longrightarrow>
   tasks (ops (loop_from cfg a w i s) ! a) ! w' = tasks (ops s ! a) ! w'"
  by (simp add: loop_from_def Let_def ops_succeed ops_fail ops_set_task ops_called ops_forward
        sibling_set_task_cell sibling_settle_cell split: sum.splits)

lemma sibling_taskTimer:
  "w' \<noteq> w \<Longrightarrow> tasks (ops (taskTimer cfg a w s) ! a) ! w' = tasks (ops s ! a) ! w'"
  by (simp add: taskTimer_def run_switch_def Let_def sibling_loop_from ops_succeed
      sendTelegramMessageToAdmin_def sibling_settle_cell split: phase.splits)





lemma warnings_set_task [simp]: "warnings (set_task a w f s) = warnings s"
  by (simp add: set_task_def)

lemma warnings_succeed [simp]: "warnings (succeed a w s) = warnings s"
  by (simp add: succeed_def allSettled_def complete_def set_task_def set_operation_def
      sendTelegramMessageToAdmin_def Let_def)

lemma unknown_kind_step:
  assumes a: "a < length (ops s)" and w: "w < length (tasks (ops s ! a))"
    and d: "phase (tasks (ops s ! a) ! w) = Delay"
    and k: "banType (operation (ops s ! a)) \<noteq> ''REPORT_FLOOD''"
      "banType (operation (ops s ! a)) \<noteq> ''MESSAGE_DELUGE''"
      "banType (operation (ops s ! a)) \<noteq> ''GROUP_POISON''"
      "banType (operation (ops s ! a)) \<noteq> ''2FA_PROBE''"
  shows "warnings (taskTimer cfg a w s) = warnings s @ [banType (operation (ops s ! a))]"
    and "clientsUsed (operation (ops (taskTimer cfg a w s) ! a)) =
           clientsUsed (operation (ops s ! a)) @ [UsedSuccess (worker_id a w s)]"
    and "phase (tasks (ops (taskTimer cfg a w s) ! a) ! w) = Succeeded"
proof -
  let ?s1 = "s\<lparr>warnings := warnings s @ [banType (operation (ops s ! a))]\<rparr>"
  have t: "taskTimer cfg a w s = succeed a w ?s1"
    using a w d k by (simp add: taskTimer_def run_switch_def Let_def)
  have o: "ops ?s1 = ops s" "worker_id a w ?s1 = worker_id a w s"
    by (simp_all add: worker_id_def)
  show "warnings (taskTimer cfg a w s) = warnings s @ [banType (operation (ops s ! a))]"
    unfolding t by simp
  have c: "ops (taskTimer cfg a w s) =
           (ops s)[a := settle_cell w Succeeded (UsedSuccess (worker_id a w s)) (ops s ! a)]"
    unfolding t using a ops_succeed [of a ?s1 w] o by simp
  show "clientsUsed (operation (ops (taskTimer cfg a w s) ! a)) =
           clientsUsed (operation (ops s ! a)) @ [UsedSuccess (worker_id a w s)]"
    unfolding c using a by (simp add: settle_cell_def Let_def)
  show "phase (tasks (ops (taskTimer cfg a w s) ! a) ! w) = Succeeded"
    unfolding c using a w by (simp add: own_settle_cell)
qed

lemma count_by_index:
  "length (filter (\<lambda>w. w < length xs \<and> P (xs ! w)) [0..<length xs]) = length (filter P xs)"
proof (induction xs rule: rev_induct)
  case Nil
  then show ?case by simp
next
  case (snoc x xs)
  have "filter (\<lambda>w. w < length (xs @ [x]) \<and> P ((xs @ [x]) ! w)) [0..<length xs] =
        filter (\<lambda>w. w < length xs \<and> P (xs ! w)) [0..<length xs]"
    by (rule filter_cong) (auto simp: nth_append)
  then show ?case
    using snoc by simp
qed

lemma wake_warnings:
  assumes "inv cfg s" "a < length (ops s)" "distinct ws"
    and "banType (operation (ops s ! a)) = bt"
    and "bt \<noteq> ''REPORT_FLOOD''" "bt \<noteq> ''MESSAGE_DELUGE''" "bt \<noteq> ''GROUP_POISON''"
      "bt \<noteq> ''2FA_PROBE''"
  shows "warnings (run cfg (map (TaskTimer a) ws) s) =
         warnings s @
         replicate (length (filter (\<lambda>w. w < length (tasks (ops s ! a)) \<and>
                                          phase (tasks (ops s ! a) ! w) = Delay) ws)) bt"
  using assms(1,2,3,4)
proof (induction ws arbitrary: s)
  case Nil
  then show ?case by simp
next
  case (Cons v ws)
  let ?s1 = "taskTimer cfg a v s"
  let ?D = "\<lambda>t w. w < length (tasks (ops t ! a)) \<and> phase (tasks (ops t ! a) ! w) = Delay"
  have s1: "snd (step cfg (TaskTimer a v) s) = ?s1"
    by (simp add: step_def)
  have i1: "inv cfg ?s1"
    using inv_step [OF Cons.prems(1), of "TaskTimer a v"] s1 by simp
  have a1: "a < length (ops ?s1)"
    using Cons.prems(2) frame_taskTimer [of cfg a v s a] by simp
  have ev: "evolves (ops s ! a) (ops ?s1 ! a)"
    using Cons.prems(2) by (rule evolves_taskTimer)
  then have b1: "banType (operation (ops ?s1 ! a)) = bt"
    using Cons.prems(4) by (simp add: evolves_def)
  have len: "length (tasks (ops ?s1 ! a)) = length (tasks (ops s ! a))"
    using ev by (rule evolves_length)
  have d1: "distinct ws" and nv: "v \<notin> set ws"
    using Cons.prems(3) by simp_all
  have same: "filter (?D ?s1) ws = filter (?D s) ws"
  proof (rule filter_cong [OF refl])
    fix w assume "w \<in> set ws"
    then have "w \<noteq> v" using nv by auto
    then show "?D ?s1 w = ?D s w"
      using sibling_taskTimer [of w v cfg a s] len by simp
  qed
  have ih: "warnings (run cfg (map (TaskTimer a) ws) ?s1) =
            warnings ?s1 @ replicate (length (filter (?D s) ws)) bt"
    using Cons.IH [OF i1 a1 d1 b1] same by simp
  have ok: "exec_ok cfg (ops s ! a)"
    using Cons.prems(1,2) by (simp add: inv_def list_all_length)
  have plain: "\<not> looped (banType (operation (ops s ! a)))"
    using Cons.prems(4) assms(5,6,7) by (simp add: looped_def)
  show ?case
  proof (cases "?D s v")
    case True
    then have "warnings ?s1 = warnings s @ [bt]"
      using unknown_kind_step(1) [OF Cons.prems(2), of v cfg] Cons.prems(4) assms(5,6,7,8)
      by simp
    then show ?thesis
      using ih True by (simp add: s1 replicate_app_Cons_same)
  next
    case False
    have "?s1 = s"
    proof (cases "v < length (tasks (ops s ! a))")
      case True
      then have "phase (tasks (ops s ! a) ! v) = Succeeded"
        using plain_task_phase [OF ok True plain] False by simp
      then show ?thesis
        by (simp add: taskTimer_def)
    next
      case False
      then show ?thesis
        by (simp add: taskTimer_def)
    qed
    then show ?thesis
      using ih False by (simp add: s1)
  qed
qed

lemma successes_by_id:
  assumes "list_all (\<lambda>u. \<not> is_failed u) us"
  shows "us = map (\<lambda>u. UsedSuccess (used_id u)) us"
  using assms
  by (induction us) (auto simp: is_failed_def used_id_def split: clientUsed.splits)

lemma tally_after_postBan:
  assumes "s0 = run cfg es1 (startup cfg)"
    and "fst (postBan cfg target bt operationId s0) = InitiatedJson operationId"
    and "s = run cfg es2 (snd (postBan cfg target bt operationId s0))"
    and "opStatus (operation (ops s ! length (ops s0))) = Completed"
  shows "opId (operation (ops s ! length (ops s0))) = operationId \<and>
         map worker (tasks (ops s ! length (ops s0))) =
           take (nat (worker_cap cfg)) (availableClients s0) \<and>
         length (clientsUsed (operation (ops s ! length (ops s0)))) =
           length (take (nat (worker_cap cfg)) (availableClients s0)) \<and>
         mset (map used_id (clientsUsed (operation (ops s ! length (ops s0))))) =
           mset (map (\<lambda>a. clientId (objs s0 ! a))
                  (take (nat (worker_cap cfg)) (availableClients s0))) \<and>
         length (filter is_failed (clientsUsed (operation (ops s ! length (ops s0))))) =
           length (filter (\<lambda>t. phase t = Failed) (tasks (ops s ! length (ops s0))))"
proof -
  let ?ex = "ops s ! length (ops s0)"
  let ?sel = "take (nat (worker_cap cfg)) (availableClients s0)"
  let ?s1 = "snd (postBan cfg target bt operationId s0)"
  note c = cell_after_postBan [OF assms(1,2,3)]
  have ok: "exec_ok cfg ?ex" by (rule c(2))
  have ev: "evolves (new_cell cfg operationId target bt (availableClients s0)) ?ex" by (rule c(3))
  have w: "map worker (tasks ?ex) = ?sel"
    using ev spawn_workers [of 0 "worker_cap cfg" "availableClients s0"]
    by (simp add: evolves_def new_cell_def)
  have all: "filter (\<lambda>t. finished (phase t)) (tasks ?ex) = tasks ?ex"
    using completed_all_finished [OF ok assms(4)] by (rule filter_all)
  then have "length (clientsUsed (operation ?ex)) = length (tasks ?ex)"
    using ok by (simp add: exec_ok_def)
  also have "\<dots> = length (map worker (tasks ?ex))"
    by simp
  finally have n: "length (clientsUsed (operation ?ex)) = length ?sel"
    using w by simp
  have i0: "ids_ok s0"
    using assms(1) by (simp add: ids_ok_run ids_ok_startup)
  have "ids_ok (snd (step cfg (PostBan target bt operationId) s0))"
    using i0 by (rule ids_ok_step)
  then have i: "ids_ok s"
    using assms(3) by (simp add: step_def ids_ok_run)
  obtain ext where "ids s = ids ?s1 @ ext"
    using ids_run [of cfg es2 ?s1] assms(3) by blast
  then have e: "ids s = ids s0 @ ext"
    by (simp add: ids_def)
  have "cell_ids_ok (ids s) ?ex"
    using i c(1) by (simp add: ids_ok_def list_all_length)
  then have "mset (map used_id (clientsUsed (operation ?ex))) =
             mset (map (\<lambda>t. ids s ! worker t) (tasks ?ex))"
    using all by (simp add: cell_ids_ok_def)
  also have "map (\<lambda>t. ids s ! worker t) (tasks ?ex) = map (\<lambda>a. ids s ! a) (map worker (tasks ?ex))"
    by simp
  also have "\<dots> = map (\<lambda>a. clientId (objs s0 ! a)) ?sel"
    unfolding w using i0 e by (rule selected_names)
  finally have m: "mset (map used_id (clientsUsed (operation ?ex))) =
                   mset (map (\<lambda>a. clientId (objs s0 ! a)) ?sel)" .
  show ?thesis
    using ev ok w n m by (simp add: evolves_def new_cell_def exec_ok_def)
qed

lemma selected_worker_id:
  assumes "s0 = run cfg es1 (startup cfg)"
    and "fst (postBan cfg target bt operationId s0) = InitiatedJson operationId"
    and "s = run cfg es2 (snd (postBan cfg target bt operationId s0))"
    and "w < length (tasks (ops s ! length (ops s0)))"
  shows "worker (tasks (ops s ! length (ops s0)) ! w) =
           take (nat (worker_cap cfg)) (availableClients s0) ! w"
    and "worker_id (length (ops s0)) w s =
           clientId (objs s0 ! (take (nat (worker_cap cfg)) (availableClients s0) ! w))"
proof -
  let ?ex = "ops s ! length (ops s0)"
  let ?sel = "take (nat (worker_cap cfg)) (availableClients s0)"
  let ?s1 = "snd (postBan cfg target bt operationId s0)"
  note c = cell_after_postBan [OF assms(1,2,3)]
  have w: "map worker (tasks ?ex) = ?sel"
    using c(3) spawn_workers [of 0 "worker_cap cfg" "availableClients s0"]
    by (simp add: evolves_def new_cell_def)
  then have l: "w < length ?sel"
    using assms(4) by (metis length_map)
  show x: "worker (tasks ?ex ! w) = ?sel ! w"
    using w assms(4) by (metis nth_map)
  have i0: "ids_ok s0"
    using assms(1) by (simp add: ids_ok_run ids_ok_startup)
  obtain ext where "ids s = ids ?s1 @ ext"
    using ids_run [of cfg es2 ?s1] assms(3) by blast
  then have e: "ids s = ids s0 @ ext"
    by (simp add: ids_def)
  have "?sel ! w \<in> set (availableClients s0)"
    using l by (meson in_set_takeD nth_mem)
  then have b: "?sel ! w < length (objs s0)"
    using i0 by (auto simp: availableClients_def ids_ok_def reg_ok_def list_all_iff)
  then have "ids s ! (?sel ! w) = clientId (objs s0 ! (?sel ! w))"
    using e by (simp add: nth_append ids_def)
  moreover have "?sel ! w < length (objs s)"
    using b e by (metis ids_def length_append length_map trans_less_add1)
  ultimately show "worker_id (length (ops s0)) w s = clientId (objs s0 ! (?sel ! w))"
    using x by (simp add: worker_id_def ids_def)
qed

text \<open>
  When the cap cuts the list of ready clients, the loop test still divides by
  \<open>clients.length\<close>, the length of the whole list: with a cap of one, two ready clients
  and \<open>MASS_REPORT_COUNT = 50\<close>, the one task that is started ends after 25 calls.
\<close>

lemma capped_selection_run:
  "length (availableClients (run (config_js 1) added_second (startup (config_js 1)))) = 2 \<and>
   length (tasks (ops (run (config_js 1) twenty_five_reports
      (snd (postBan (config_js 1) ''T1'' ''REPORT_FLOOD'' ''op_1''
             (run (config_js 1) added_second (startup (config_js 1)))))) ! 0)) = 1 \<and>
   phase (tasks (ops (run (config_js 1) twenty_five_reports
      (snd (postBan (config_js 1) ''T1'' ''REPORT_FLOOD'' ''op_1''
             (run (config_js 1) added_second (startup (config_js 1)))))) ! 0) ! 0) = Succeeded \<and>
   invoked (tasks (ops (run (config_js 1) twenty_five_reports
      (snd (postBan (config_js 1) ''T1'' ''REPORT_FLOOD'' ''op_1''
             (run (config_js 1) added_second (startup (config_js 1)))))) ! 0) ! 0) = 25"
  by code_simp

section \<open>The claims\<close>

text \<open>
  C8. Removing an identity that the registry does not hold answers \<open>404\<close> at once and
  changes nothing: the whole state after the request, with the client map, the cache and
  the operations in it, is the state before.
\<close>

theorem remove_unknown_identity:
  assumes "map_of (whatsappClients s) cid = None"
  shows "postRemove cid s = (Some (NotFound404 cid), s) \<and>
         step cfg (PostRemove cid) s = (Some (NotFound404 cid), s)"
  using assms by (simp add: postRemove_def step_def)

theorem remove_unknown_identity_witness:
  "postRemove ''w9'' (startup (config_js 2)) = (Some (NotFound404 ''w9''), startup (config_js 2))"
proof -
  have "map_of (whatsappClients (startup (config_js 2))) ''w9'' = None"
    by code_simp
  from remove_unknown_identity [OF this] show ?thesis by simp
qed

text \<open>
  C6. On a manager whose status is not \<open>ready\<close>, each of the three actions throws the
  not-ready error before anything else happens, and the step of a task that dispatches
  to such a manager makes no call of the wrapped client: the log of those calls is the
  same after the step.
\<close>

theorem dispatch_requires_ready:
  assumes "status m \<noteq> Ready"
    and "objs s ! worker (tasks (ops s ! a) ! w) = m"
  shows "sendMessage m target = Inl (NotReadyError (clientId m) ''send messages'' (status m)) \<and>
         sendReport m target = Inl (NotReadyError (clientId m) ''report'' (status m)) \<and>
         addTargetToGroup m target =
           Inl (NotReadyError (clientId m) ''create/add to group'' (status m)) \<and>
         connLog (snd (step cfg (TaskTimer a w) s)) = connLog s"
  using assms
  by (simp add: sendMessage_def sendReport_def addTargetToGroup_def step_def
      connLog_taskTimer_not_ready)

theorem dispatch_requires_ready_witness:
  "status (objs (run (config_js 1) disconnected_before_dispatch (startup (config_js 1))) ! 0) = Disconnected \<and>
   sendMessage (objs (run (config_js 1) disconnected_before_dispatch (startup (config_js 1))) ! 0) ''T1'' =
     Inl (NotReadyError ''client_1'' ''send messages'' Disconnected) \<and>
   connLog (snd (step (config_js 1) (TaskTimer 0 0)
                   (run (config_js 1) disconnected_before_dispatch (startup (config_js 1))))) =
     connLog (run (config_js 1) disconnected_before_dispatch (startup (config_js 1))) \<and>
   phase (tasks (ops (snd (step (config_js 1) (TaskTimer 0 0)
                   (run (config_js 1) disconnected_before_dispatch (startup (config_js 1))))) ! 0) ! 0) = Failed"
proof -
  let ?s = "run (config_js 1) disconnected_before_dispatch (startup (config_js 1))"
  have st: "status (objs ?s ! 0) = Disconnected"
    by code_simp
  then have a: "status (objs ?s ! 0) \<noteq> Ready"
    by simp
  have b: "objs ?s ! worker (tasks (ops ?s ! 0) ! 0) = objs ?s ! 0"
    by code_simp
  have c: "clientId (objs ?s ! 0) = ''client_1''"
    by code_simp
  have d: "phase (tasks (ops (snd (step (config_js 1) (TaskTimer 0 0) ?s)) ! 0) ! 0) = Failed"
    by code_simp
  from dispatch_requires_ready [OF a b, of "''T1''" "config_js 1"] st c d
  show ?thesis by simp
qed

text \<open>
  C7. After an accepted submission the map holds the new operation under its id, the
  answer of \<open>GET /status\<close> lists it, and its status is \<open>in_progress\<close>; it is
  \<open>completed\<close> only when the loop that starts the tasks selected no client.
\<close>

theorem status_after_submit:
  assumes "fst (postBan cfg target bt operationId s) = InitiatedJson operationId"
    and "s' = snd (postBan cfg target bt operationId s)"
  shows "map_of (activeOperations s') operationId = Some (length (ops s)) \<and>
         operation (ops s' ! length (ops s)) \<in> set (status_operations (getStatus s')) \<and>
         opId (operation (ops s' ! length (ops s))) = operationId \<and>
         opStatus (operation (ops s' ! length (ops s))) =
           (if spawn (worker_cap cfg) 0 (availableClients s) = [] then Completed else InProgress)"
proof -
  have m: "map_of (activeOperations s') operationId = Some (length (ops s))"
    using assms by (simp add: activeOperations_postBan update_conv')
  then have "(operationId, length (ops s)) \<in> set (activeOperations s')"
    by (rule map_of_SomeD)
  then have v: "operation (ops s' ! length (ops s)) \<in> set (status_operations (getStatus s'))"
    by (force simp: getStatus_def status_operations_def Let_def)
  have "ops s' = ops s @ [new_cell cfg operationId target bt (availableClients s)]"
    using assms postBan_accepted [OF assms(1)] by (simp add: ops_postBan)
  then show ?thesis
    using m v by (simp add: new_cell_def)
qed

theorem status_after_submit_witness:
  "map_of (activeOperations (snd (postBan (config_js 1) ''T1'' ''REPORT_FLOOD'' ''op_1''
       (run (config_js 1) [ClientEvent 0 ReadyEv] (startup (config_js 1)))))) ''op_1'' = Some 0 \<and>
   opStatus (operation (ops (snd (postBan (config_js 1) ''T1'' ''REPORT_FLOOD'' ''op_1''
       (run (config_js 1) [ClientEvent 0 ReadyEv] (startup (config_js 1))))) ! 0)) = InProgress"
proof -
  let ?s = "run (config_js 1) [ClientEvent 0 ReadyEv] (startup (config_js 1))"
  have a: "fst (postBan (config_js 1) ''T1'' ''REPORT_FLOOD'' ''op_1'' ?s) = InitiatedJson ''op_1''"
    by code_simp
  have l: "length (ops ?s) = 0"
    by code_simp
  have n: "spawn (worker_cap (config_js 1)) 0 (availableClients ?s) \<noteq> []"
    by code_simp
  from status_after_submit [OF a refl] l n show ?thesis
    by simp
qed

text \<open>
  C9. \<open>POST /whatsapp/add\<close> stores the fresh manager under the name \<open>client_\<close> followed
  by the size of the map plus one, whatever the map holds. In the state after
  \<open>shrunk_pool\<close> the map has two entries and \<open>client_3\<close> is one of them, ready, at address
  2: the request then shuts that object's wrapped client down, puts a fresh object
  (address 3) under \<open>client_3\<close>, and the map still has two entries.
\<close>

theorem add_reuses_identity:
  "(map_of (whatsappClients (snd (postAdd s))) (''client_'' @ decimal (length (whatsappClients s) + 1)) =
      Some (length (objs s)) \<and>
    clientId (objs (snd (postAdd s)) ! length (objs s)) =
      ''client_'' @ decimal (length (whatsappClients s) + 1) \<and>
    pollers (snd (postAdd s)) =
      pollers s @ [''client_'' @ decimal (length (whatsappClients s) + 1)]) \<and>
   (map_of (whatsappClients (run (config_js 3) shrunk_pool (startup (config_js 3)))) ''client_3'' = Some 2 \<and>
    status (objs (run (config_js 3) shrunk_pool (startup (config_js 3))) ! 2) = Ready \<and>
    length (whatsappClients (run (config_js 3) shrunk_pool (startup (config_js 3)))) = 2 \<and>
    map_of (whatsappClients (run (config_js 3) (shrunk_pool @ [PostAdd]) (startup (config_js 3))))
      ''client_3'' = Some 3 \<and>
    length (whatsappClients (run (config_js 3) (shrunk_pool @ [PostAdd]) (startup (config_js 3)))) = 2 \<and>
    (2, CDestroy) \<in> set (connLog (run (config_js 3) (shrunk_pool @ [PostAdd]) (startup (config_js 3)))) \<and>
    pollers (run (config_js 3) (shrunk_pool @ [PostAdd]) (startup (config_js 3))) = [''client_3''])"
proof -
  have "map_of (whatsappClients (run (config_js 3) shrunk_pool (startup (config_js 3)))) ''client_3'' = Some 2"
    by code_simp
  moreover have "status (objs (run (config_js 3) shrunk_pool (startup (config_js 3))) ! 2) = Ready"
    by code_simp
  moreover have "length (whatsappClients (run (config_js 3) shrunk_pool (startup (config_js 3)))) = 2"
    by code_simp
  moreover have "map_of (whatsappClients (run (config_js 3) (shrunk_pool @ [PostAdd]) (startup (config_js 3))))
      ''client_3'' = Some 3"
    by code_simp
  moreover have "length (whatsappClients (run (config_js 3) (shrunk_pool @ [PostAdd]) (startup (config_js 3)))) = 2"
    by code_simp
  moreover have "(2, CDestroy) \<in> set (connLog (run (config_js 3) (shrunk_pool @ [PostAdd]) (startup (config_js 3))))"
    by code_simp
  moreover have "pollers (run (config_js 3) (shrunk_pool @ [PostAdd]) (startup (config_js 3))) = [''client_3'']"
    by code_simp
  ultimately show ?thesis
    using add_assigns_size_plus_one [of s] by simp
qed

text \<open>
  C3, on the code. The removal of \<open>client_1\<close> is answered and the id leaves the map;
  the callback of \<open>destroy\<close> has by then left a timer that re-initialises \<open>client_1\<close>,
  and when it fires the id is in the map again, though nothing asked for it.
\<close>

theorem removed_identity_returns:
  "step (config_js 1) (DestroySettled 0 True)
     (run (config_js 1) [PostRemove ''client_1''] (startup (config_js 1))) =
     (Some (RemovedJson ''client_1''), run (config_js 1) removal (startup (config_js 1))) \<and>
   map_of (whatsappClients (run (config_js 1) removal (startup (config_js 1)))) ''client_1'' = None \<and>
   timers (run (config_js 1) removal (startup (config_js 1))) = [Reinit ''client_1''] \<and>
   map_of (whatsappClients (run (config_js 1) (removal @ [TimerFired 0]) (startup (config_js 1))))
     ''client_1'' = Some 1"
  by code_simp

text \<open>
  C10. In a reachable state and along any run from it, the status of an operation
  record never goes down in the order \<open>pending\<close>, \<open>in_progress\<close>, \<open>completed\<close>;
  a record is created \<open>pending\<close> and has left that status when its handler returns;
  and a \<open>completed\<close> record, with the closure that owns it, is never written again.
\<close>

theorem status_only_advances:
  assumes "s = run cfg es (startup cfg)"
    and "a < length (ops s)"
    and "s' = run cfg es' s"
  shows "rank (opStatus (operation (ops s ! a))) \<le> rank (opStatus (operation (ops s' ! a))) \<and>
         opStatus (operation (ops s ! a)) \<noteq> Pending \<and>
         (opStatus (operation (ops s ! a)) = Completed \<longrightarrow> ops s' ! a = ops s ! a) \<and>
         opStatus (operation (ops (createOperation operationId target bt s) ! length (ops s))) = Pending"
proof -
  have ok: "exec_ok cfg (ops s ! a)"
    using assms(1,2) inv_run [OF inv_startup, of cfg es] by (simp add: inv_def list_all_length)
  have ev: "evolves (ops s ! a) (ops s' ! a)"
    using evolves_run [OF assms(2), of cfg es'] assms(3) by simp
  have "ops s' ! a = ops s ! a" if "opStatus (operation (ops s ! a)) = Completed"
    using completed_all_finished [OF ok that] ev by (simp add: evolves_def)
  moreover have "opStatus (operation (ops s ! a)) \<noteq> Pending"
    using ok by (simp add: exec_ok_def)
  ultimately show ?thesis
    using ev by (simp add: evolves_def createOperation_def)
qed

theorem status_only_advances_witness:
  "opStatus (operation (ops (run (config_js 1) [ClientEvent 0 ReadyEv, PostBan ''T1'' ''2FA_PROBE'' ''op_1'']
       (startup (config_js 1))) ! 0)) = InProgress \<and>
   opStatus (operation (ops (run (config_js 1) [TaskTimer 0 0]
       (run (config_js 1) [ClientEvent 0 ReadyEv, PostBan ''T1'' ''2FA_PROBE'' ''op_1'']
          (startup (config_js 1)))) ! 0)) = Completed \<and>
   rank InProgress \<le> rank Completed"
proof -
  let ?mid = "run (config_js 1) [ClientEvent 0 ReadyEv, PostBan ''T1'' ''2FA_PROBE'' ''op_1'']
                (startup (config_js 1))"
  have a: "0 < length (ops ?mid)"
    by code_simp
  have b: "opStatus (operation (ops ?mid ! 0)) = InProgress"
    by code_simp
  have c: "opStatus (operation (ops (run (config_js 1) [TaskTimer 0 0] ?mid) ! 0)) = Completed"
    by code_simp
  from status_only_advances [OF refl a refl, of "[TaskTimer 0 0]"] b c
  show ?thesis by simp
qed

text \<open>
  C5. A submission that names a target and a ban type, made while no client is ready, is
  answered \<open>503\<close> and creates no operation record: the state, and with it the map of
  operations, is as it was before.
\<close>

theorem submit_without_ready_workers:
  assumes "availableClients s = []" and "target \<noteq> []" and "bt \<noteq> []"
  shows "fst (postBan cfg target bt operationId s) = Unavailable503 \<and>
         snd (postBan cfg target bt operationId s) = s \<and>
         activeOperations (snd (postBan cfg target bt operationId s)) = activeOperations s"
  using assms by (simp add: postBan_def)

theorem submit_without_ready_workers_witness:
  "availableClients (startup (config_js 2)) = [] \<and>
   fst (postBan (config_js 2) ''T1'' ''REPORT_FLOOD'' ''op_1'' (startup (config_js 2))) =
     Unavailable503 \<and>
   snd (postBan (config_js 2) ''T1'' ''REPORT_FLOOD'' ''op_1'' (startup (config_js 2))) =
     startup (config_js 2) \<and>
   activeOperations (snd (postBan (config_js 2) ''T1'' ''REPORT_FLOOD'' ''op_1''
     (startup (config_js 2)))) = []"
proof -
  have n: "availableClients (startup (config_js 2)) = []"
    by code_simp
  have t: "''T1'' \<noteq> []" "''REPORT_FLOOD'' \<noteq> []"
    by simp_all
  have e: "activeOperations (startup (config_js 2)) = []"
    by code_simp
  from submit_without_ready_workers [OF n t, of "config_js 2" "''op_1''"] n e
  show ?thesis by simp
qed



text \<open>
  C1, as amended. Where the cap does not cut the list of ready clients, so that every
  ready client is selected and \<open>clients.length\<close> is the number \<open>n\<close> of selected clients:
  no task calls its manager more often than the total count divided by \<open>n\<close> and rounded
  up, and a task that ends in success has made exactly that many calls, one for each pass
  of its loop. \<open>total\<close> is the count of config.js for the three looping ban types and 0
  for the others. With two ready clients of a pool of three and a count of 10 that is 5.
\<close>

theorem repeats_per_worker:
  assumes "s0 = run cfg es1 (startup cfg)"
    and "fst (postBan cfg target bt operationId s0) = InitiatedJson operationId"
    and "s = run cfg es2 (snd (postBan cfg target bt operationId s0))"
    and "w < length (tasks (ops s ! length (ops s0)))"
    and "length (availableClients s0) \<le> nat (worker_cap cfg)"
  shows "length (tasks (ops s ! length (ops s0))) =
           length (take (nat (worker_cap cfg)) (availableClients s0)) \<and>
         invoked (tasks (ops s ! length (ops s0)) ! w) \<le>
           (total cfg bt + length (take (nat (worker_cap cfg)) (availableClients s0)) - 1) div
             length (take (nat (worker_cap cfg)) (availableClients s0)) \<and>
         (phase (tasks (ops s ! length (ops s0)) ! w) = Succeeded \<longrightarrow>
          invoked (tasks (ops s ! length (ops s0)) ! w) =
            (total cfg bt + length (take (nat (worker_cap cfg)) (availableClients s0)) - 1) div
              length (take (nat (worker_cap cfg)) (availableClients s0)))"
proof -
  let ?ex = "ops s ! length (ops s0)"
  let ?t = "tasks ?ex ! w"
  let ?n = "length (availableClients s0)"
  note c = cell_after_postBan [OF assms(1,2,3)]
  have sel: "take (nat (worker_cap cfg)) (availableClients s0) = availableClients s0"
    using assms(5) by simp
  have ev: "evolves (new_cell cfg operationId target bt (availableClients s0)) ?ex"
    by (rule c(3))
  then have n: "clients_length ?ex = ?n" and b: "banType (operation ?ex) = bt"
    by (simp_all add: evolves_def new_cell_def)
  have "map worker (tasks ?ex) = take (nat (worker_cap cfg)) (availableClients s0)"
    using ev spawn_workers [of 0 "worker_cap cfg" "availableClients s0"]
    by (simp add: evolves_def new_cell_def)
  then have len: "length (tasks ?ex) = ?n"
    unfolding sel by (metis length_map)
  have pos: "0 < ?n"
    using postBan_accepted [OF assms(2)] by simp
  have ok: "task_ok (total cfg bt) ?n (looped bt) ?t"
    using c(2) assms(4) n b by (simp add: exec_ok_def list_all_length)
  have eq: "invoked ?t = (total cfg bt + ?n - 1) div ?n" if "phase ?t = Succeeded"
  proof -
    from ok that have "total cfg bt \<le> invoked ?t * ?n"
      and "invoked ?t = 0 \<or> (invoked ?t - 1) * ?n < total cfg bt"
      by (simp_all add: task_ok_def)
    with pos show ?thesis
      by (rule ceiling_quotient)
  qed
  have "invoked ?t \<le> (total cfg bt + ?n - 1) div ?n"
  proof (cases "phase ?t")
    case Delay
    then show ?thesis using ok by (simp add: task_ok_def)
  next
    case (Calling i)
    then show ?thesis using ok below_ceiling [OF pos, of i "total cfg bt"] by (simp add: task_ok_def)
  next
    case (Pausing i)
    then show ?thesis using ok below_ceiling [OF pos, of i "total cfg bt"] by (simp add: task_ok_def)
  next
    case Succeeded
    then show ?thesis using eq by simp
  next
    case Failed
    then show ?thesis
      using ok below_ceiling [OF pos, of "invoked ?t - 1" "total cfg bt"] by (simp add: task_ok_def)
  qed
  then show ?thesis
    unfolding sel using eq len by simp
qed

theorem repeats_per_worker_witness:
  "length (take (nat (worker_cap count_ten))
     (availableClients (run count_ten two_of_three_ready (startup count_ten)))) = 2 \<and>
   length (tasks (ops (run count_ten five_reports
      (snd (postBan count_ten ''T1'' ''REPORT_FLOOD'' ''op_1''
             (run count_ten two_of_three_ready (startup count_ten))))) ! 0)) = 2 \<and>
   total count_ten ''REPORT_FLOOD'' = 10 \<and>
   phase (tasks (ops (run count_ten five_reports
      (snd (postBan count_ten ''T1'' ''REPORT_FLOOD'' ''op_1''
             (run count_ten two_of_three_ready (startup count_ten))))) ! 0) ! 0) = Succeeded \<and>
   invoked (tasks (ops (run count_ten five_reports
      (snd (postBan count_ten ''T1'' ''REPORT_FLOOD'' ''op_1''
             (run count_ten two_of_three_ready (startup count_ten))))) ! 0) ! 0) = 5"
proof -
  let ?before = "run count_ten two_of_three_ready (startup count_ten)"
  let ?after = "run count_ten five_reports
                  (snd (postBan count_ten ''T1'' ''REPORT_FLOOD'' ''op_1'' ?before))"
  have a: "fst (postBan count_ten ''T1'' ''REPORT_FLOOD'' ''op_1'' ?before) = InitiatedJson ''op_1''"
    by code_simp
  have l: "length (ops ?before) = 0"
    by code_simp
  have w: "0 < length (tasks (ops ?after ! 0))"
    by code_simp
  have p: "phase (tasks (ops ?after ! 0) ! 0) = Succeeded"
    by code_simp
  have k: "length (availableClients ?before) \<le> nat (worker_cap count_ten)"
    by code_simp
  have n: "length (take (nat (worker_cap count_ten)) (availableClients ?before)) = 2"
    by code_simp
  have c: "total count_ten ''REPORT_FLOOD'' = 10"
    by code_simp
  from repeats_per_worker [OF refl a refl, unfolded l, OF w k] n c p
  show ?thesis by simp
qed

text \<open>
  C1 as stated fails. With three ready clients, all selected, and
  \<open>MASS_REPORT_COUNT = 50\<close>, a task that ends in success has made 17 calls, and the
  rounded-down quotient is 16. And a task whose client is disconnected before the first
  call fails at that call: with two selected clients it has made one call, not 25.
\<close>

theorem repeats_per_worker_counterexample:
  "phase (tasks (ops (run (config_js 3) seventeen_reports
      (snd (postBan (config_js 3) ''T1'' ''REPORT_FLOOD'' ''op_1''
             (run (config_js 3) three_ready (startup (config_js 3)))))) ! 0) ! 0) = Succeeded \<and>
   invoked (tasks (ops (run (config_js 3) seventeen_reports
      (snd (postBan (config_js 3) ''T1'' ''REPORT_FLOOD'' ''op_1''
             (run (config_js 3) three_ready (startup (config_js 3)))))) ! 0) ! 0) = 17 \<and>
   length (tasks (ops (run (config_js 3) seventeen_reports
      (snd (postBan (config_js 3) ''T1'' ''REPORT_FLOOD'' ''op_1''
             (run (config_js 3) three_ready (startup (config_js 3)))))) ! 0)) = 3 \<and>
   MASS_REPORT_COUNT (config_js 3) div 3 = 16 \<and>
   phase (tasks (ops (run (config_js 3) one_disconnected_one_done
      (snd (postBan (config_js 3) ''T1'' ''REPORT_FLOOD'' ''op_1''
             (run (config_js 3) two_of_three_ready (startup (config_js 3)))))) ! 0) ! 0) = Failed \<and>
   invoked (tasks (ops (run (config_js 3) one_disconnected_one_done
      (snd (postBan (config_js 3) ''T1'' ''REPORT_FLOOD'' ''op_1''
             (run (config_js 3) two_of_three_ready (startup (config_js 3)))))) ! 0) ! 0) = 1 \<and>
   length (tasks (ops (run (config_js 3) one_disconnected_one_done
      (snd (postBan (config_js 3) ''T1'' ''REPORT_FLOOD'' ''op_1''
             (run (config_js 3) two_of_three_ready (startup (config_js 3)))))) ! 0)) = 2 \<and>
   MASS_REPORT_COUNT (config_js 3) div 2 = 25"
  by code_simp

text \<open>
  C2, as amended. For a ban type that the switch does not know, every entry of
  \<open>clientsUsed\<close> is a success and no task ever calls its manager. The step that ends the
  first delay of a task logs one warning, which names the ban type, and adds to
  \<open>clientsUsed\<close> one success with the id of the client of that task. Once the first
  delay of every task is over the operation is \<open>completed\<close>, one warning has been
  logged for each task that was waiting, and \<open>clientsUsed\<close> holds one success for each
  selected client, under its id, and nothing else.
\<close>

theorem unknown_kind_records_success:
  assumes "s0 = run cfg es1 (startup cfg)"
    and "fst (postBan cfg target bt operationId s0) = InitiatedJson operationId"
    and "s = run cfg es2 (snd (postBan cfg target bt operationId s0))"
    and "bt \<noteq> ''REPORT_FLOOD''" "bt \<noteq> ''MESSAGE_DELUGE''" "bt \<noteq> ''GROUP_POISON''"
      "bt \<noteq> ''2FA_PROBE''"
    and "s' = run cfg (map (TaskTimer (length (ops s0))) [0..<length (tasks (ops s ! length (ops s0)))]) s"
  shows "list_all (\<lambda>u. \<not> is_failed u) (clientsUsed (operation (ops s ! length (ops s0)))) \<and>
         list_all (\<lambda>t. invoked t = 0) (tasks (ops s ! length (ops s0))) \<and>
         (w < length (tasks (ops s ! length (ops s0))) \<and>
          phase (tasks (ops s ! length (ops s0)) ! w) = Delay \<longrightarrow>
          warnings (snd (step cfg (TaskTimer (length (ops s0)) w) s)) = warnings s @ [bt] \<and>
          clientsUsed (operation (ops (snd (step cfg (TaskTimer (length (ops s0)) w) s)) !
                                    length (ops s0))) =
            clientsUsed (operation (ops s ! length (ops s0))) @
            [UsedSuccess (clientId (objs s0 !
               (take (nat (worker_cap cfg)) (availableClients s0) ! w)))]) \<and>
         opStatus (operation (ops s' ! length (ops s0))) = Completed \<and>
         length (clientsUsed (operation (ops s' ! length (ops s0)))) =
           length (take (nat (worker_cap cfg)) (availableClients s0)) \<and>
         list_all (\<lambda>u. \<not> is_failed u) (clientsUsed (operation (ops s' ! length (ops s0)))) \<and>
         mset (clientsUsed (operation (ops s' ! length (ops s0)))) =
           mset (map (\<lambda>a. UsedSuccess (clientId (objs s0 ! a)))
                  (take (nat (worker_cap cfg)) (availableClients s0))) \<and>
         warnings s' =
           warnings s @
           replicate (length (filter (\<lambda>t. phase t = Delay) (tasks (ops s ! length (ops s0))))) bt"
proof -
  let ?a = "length (ops s0)"
  let ?sel = "take (nat (worker_cap cfg)) (availableClients s0)"
  note c = cell_after_postBan [OF assms(1,2,3)]
  have ev: "evolves (new_cell cfg operationId target bt (availableClients s0)) (ops s ! ?a)"
    by (rule c(3))
  then have b: "banType (operation (ops s ! ?a)) = bt"
    by (simp add: evolves_def new_cell_def)
  have plain: "\<not> looped (banType (operation (ops s ! ?a)))"
    using b assms(4,5,6) by (simp add: looped_def)
  have i: "inv cfg s"
    using assms(1,3) inv_step [OF inv_run [OF inv_startup, of cfg es1], of "PostBan target bt operationId"]
    by (simp add: step_def inv_run)
  have success_only: "list_all (\<lambda>u. \<not> is_failed u) (clientsUsed (operation ex))"
    and untouched: "list_all (\<lambda>t. invoked t = 0) (tasks ex)"
    if ok: "exec_ok cfg ex" and p: "\<not> looped (banType (operation ex))" for ex
  proof -
    have ph: "(phase (tasks ex ! w) = Delay \<or> phase (tasks ex ! w) = Succeeded) \<and> invoked (tasks ex ! w) = 0"
      if "w < length (tasks ex)" for w
      using plain_task_phase [OF ok that p] .
    then show "list_all (\<lambda>t. invoked t = 0) (tasks ex)"
      by (simp add: list_all_length)
    have "filter (\<lambda>t. phase t = Failed) (tasks ex) = []"
      using ph by (fastforce simp: filter_empty_conv in_set_conv_nth)
    then have "length (filter is_failed (clientsUsed (operation ex))) = 0"
      using ok by (simp add: exec_ok_def)
    then show "list_all (\<lambda>u. \<not> is_failed u) (clientsUsed (operation ex))"
      by (rule filter_none)
  qed
  have one: "warnings (snd (step cfg (TaskTimer ?a w) s)) = warnings s @ [bt] \<and>
          clientsUsed (operation (ops (snd (step cfg (TaskTimer ?a w) s)) ! ?a)) =
            clientsUsed (operation (ops s ! ?a)) @ [UsedSuccess (clientId (objs s0 ! (?sel ! w)))]"
    if w: "w < length (tasks (ops s ! ?a))" and d: "phase (tasks (ops s ! ?a) ! w) = Delay"
    using unknown_kind_step(1,2) [OF c(1) w d, of cfg] b assms(4,5,6,7)
      selected_worker_id(2) [OF assms(1,2,3) w]
    by (simp add: step_def)
  have fin: "opStatus (operation (ops s' ! ?a)) = Completed"
    using wake_all_completes [OF i c(1) plain assms(8)] .
  have s': "s' = run cfg (es2 @ map (TaskTimer ?a) [0..<length (tasks (ops s ! ?a))])
                   (snd (postBan cfg target bt operationId s0))"
  proof -
    have "run cfg (xs @ ys) t = run cfg ys (run cfg xs t)" for xs ys t
      by (induction xs arbitrary: t) simp_all
    then show ?thesis using assms(3,8) by simp
  qed
  note c' = cell_after_postBan [OF assms(1,2) s']
  have ev': "evolves (new_cell cfg operationId target bt (availableClients s0)) (ops s' ! ?a)"
    by (rule c'(3))
  have plain': "\<not> looped (banType (operation (ops s' ! ?a)))"
    using ev' assms(4,5,6) by (simp add: evolves_def new_cell_def looped_def)
  note so = success_only [OF c'(2) plain']
  have tl: "length (clientsUsed (operation (ops s' ! ?a))) = length ?sel"
    and ti: "mset (map used_id (clientsUsed (operation (ops s' ! ?a)))) =
             mset (map (\<lambda>a. clientId (objs s0 ! a)) ?sel)"
    using tally_after_postBan [OF assms(1,2) s' fin] by simp_all
  have "mset (clientsUsed (operation (ops s' ! ?a))) =
        mset (map (\<lambda>u. UsedSuccess (used_id u)) (clientsUsed (operation (ops s' ! ?a))))"
    using successes_by_id [OF so] by simp
  also have "\<dots> = image_mset UsedSuccess (mset (map used_id (clientsUsed (operation (ops s' ! ?a)))))"
    by (simp add: multiset.map_comp comp_def)
  also have "\<dots> = mset (map (\<lambda>a. UsedSuccess (clientId (objs s0 ! a))) ?sel)"
    unfolding ti by (simp add: multiset.map_comp comp_def)
  finally have ms: "mset (clientsUsed (operation (ops s' ! ?a))) =
                    mset (map (\<lambda>a. UsedSuccess (clientId (objs s0 ! a))) ?sel)" .
  have "warnings s' = warnings s @
          replicate (length (filter (\<lambda>w. w < length (tasks (ops s ! ?a)) \<and>
                       phase (tasks (ops s ! ?a) ! w) = Delay) [0..<length (tasks (ops s ! ?a))])) bt"
    unfolding assms(8) using i c(1) _ b assms(4,5,6,7) by (rule wake_warnings) simp
  then have wn: "warnings s' = warnings s @
          replicate (length (filter (\<lambda>t. phase t = Delay) (tasks (ops s ! ?a)))) bt"
    by (simp only: count_by_index [of "tasks (ops s ! ?a)" "\<lambda>t. phase t = Delay"])
  show ?thesis
    using success_only [OF c(2) plain] untouched [OF c(2) plain] one fin tl so ms wn
    by blast
qed

theorem unknown_kind_records_success_witness:
  "opStatus (operation (ops (run (config_js 2) [TaskTimer 0 0, TaskTimer 0 1]
      (snd (postBan (config_js 2) ''T1'' ''UNKNOWN_KIND'' ''op_1''
             (run (config_js 2) two_ready (startup (config_js 2)))))) ! 0)) = Completed \<and>
   clientsUsed (operation (ops (run (config_js 2) [TaskTimer 0 0, TaskTimer 0 1]
      (snd (postBan (config_js 2) ''T1'' ''UNKNOWN_KIND'' ''op_1''
             (run (config_js 2) two_ready (startup (config_js 2)))))) ! 0)) =
     [UsedSuccess ''client_1'', UsedSuccess ''client_2''] \<and>
   warnings (snd (postBan (config_js 2) ''T1'' ''UNKNOWN_KIND'' ''op_1''
             (run (config_js 2) two_ready (startup (config_js 2))))) = [] \<and>
   warnings (run (config_js 2) [TaskTimer 0 0, TaskTimer 0 1]
      (snd (postBan (config_js 2) ''T1'' ''UNKNOWN_KIND'' ''op_1''
             (run (config_js 2) two_ready (startup (config_js 2)))))) =
     [''UNKNOWN_KIND'', ''UNKNOWN_KIND'']"
proof -
  let ?before = "run (config_js 2) two_ready (startup (config_js 2))"
  let ?mid = "snd (postBan (config_js 2) ''T1'' ''UNKNOWN_KIND'' ''op_1'' ?before)"
  have a: "fst (postBan (config_js 2) ''T1'' ''UNKNOWN_KIND'' ''op_1'' ?before) = InitiatedJson ''op_1''"
    by code_simp
  have m: "?mid = run (config_js 2) [] ?mid"
    by simp
  have l: "length (ops ?before) = 0"
    by code_simp
  have ws: "map (TaskTimer 0) [0..<length (tasks (ops ?mid ! 0))] = [TaskTimer 0 0, TaskTimer 0 1]"
    by code_simp
  have k: "''UNKNOWN_KIND'' \<noteq> ''REPORT_FLOOD''" "''UNKNOWN_KIND'' \<noteq> ''MESSAGE_DELUGE''"
    "''UNKNOWN_KIND'' \<noteq> ''GROUP_POISON''" "''UNKNOWN_KIND'' \<noteq> ''2FA_PROBE''"
    by simp_all
  have u: "clientsUsed (operation (ops (run (config_js 2) [TaskTimer 0 0, TaskTimer 0 1] ?mid) ! 0)) =
     [UsedSuccess ''client_1'', UsedSuccess ''client_2'']"
    by code_simp
  have e: "warnings ?mid = []"
    by code_simp
  have d: "length (filter (\<lambda>t. phase t = Delay) (tasks (ops ?mid ! 0))) = 2"
    by code_simp
  from unknown_kind_records_success [OF refl a m k refl, unfolded l ws d e] u e
  show ?thesis by (simp add: numeral_2_eq_2)
qed

text \<open>
  C2 as stated fails: the step that logs the warning of the default branch also records
  a success, so the completed operation has an entry in \<open>clientsUsed\<close>.
\<close>

theorem unknown_kind_records_success_counterexample:
  "opStatus (operation (ops (run (config_js 1) unknown_kind_run (startup (config_js 1))) ! 0)) = Completed \<and>
   clientsUsed (operation (ops (run (config_js 1) unknown_kind_run (startup (config_js 1))) ! 0)) =
     [UsedSuccess ''client_1''] \<and>
   warnings (run (config_js 1) unknown_kind_run (startup (config_js 1))) = [''UNKNOWN_KIND'']"
  by code_simp

end
